theory Spec2Isabelle
  imports Main "HOL-Library.Word"
begin

section \<open>Driver state\<close>

text \<open>
  \<^verbatim>\<open>boost::system::error_code\<close>: a value and a category. Two codes are equal when both
  agree; a code converts to true (an error) when its value is not zero.
\<close>

datatype error_code = ErrorCode (ec_value: int) (ec_category: nat)

definition success :: error_code where
  "success = ErrorCode 0 0"

definition failed :: "error_code \<Rightarrow> bool" where
  "failed e = (ec_value e \<noteq> 0)"

text \<open>
  Modelled from the spec: \<^verbatim>\<open>can::State\<close> is declared in \<^verbatim>\<open>interface.h\<close>, which is not
  part of the sources. The spec gives it a link status out of closed, open and ready, a
  transport error code and an internal error code, and has it created closed. The
  status open is written \<open>opened\<close> here.
\<close>

datatype DriverState = closed | opened | ready

record State =
  driver_state :: DriverState
  error_code :: error_code
  internal_error :: "32 word"

text \<open>
  Modelled from the spec: \<^verbatim>\<open>State::isReady\<close> is declared in \<^verbatim>\<open>interface.h\<close> as well;
  by the spec a driver is ready when its link status is ready.
\<close>

definition isReady :: "State \<Rightarrow> bool" where
  "isReady s = (driver_state s = ready)"

definition State_init :: State where
  "State_init = \<lparr>driver_state = closed, error_code = success, internal_error = 0\<rparr>"

definition state_in :: "DriverState \<Rightarrow> State" where
  "state_in st = State_init\<lparr>driver_state := st\<rparr>"

section \<open>The driver and what it does to its collaborators\<close>

datatype mutex = state_mutex | socket_mutex

text \<open>
  Everything the driver does to its collaborators is recorded, in order: taking and
  releasing a mutex, a dispatch to the state observers, the registration of a state
  listener, the posting of a frame dispatch to the reactor, the calls of the two
  abstract operations of the transport, and the calls on the socket and on the reactor.
\<close>

datatype 'f event =
    Lock mutex
  | Unlock mutex
  | StateDispatch State
  | CreateStateListener
  | FramePost 'f
  | TriggerReadSome
  | Enqueue 'f
  | SocketCancel
  | SocketClose
  | IoReset
  | IoWork
  | IoThread
  | IoStop

record 'f AsioDriver =
  state :: State
  socket_is_open :: bool
  io_stopped :: bool
  input :: 'f
  trace :: "'f event list"

definition emit :: "'f event list \<Rightarrow> 'f AsioDriver \<Rightarrow> 'f AsioDriver" where
  "emit evs d = d\<lparr>trace := trace d @ evs\<rparr>"

text \<open>The events an operation added, and the states it handed to the state observers.\<close>

definition emitted :: "'f AsioDriver \<Rightarrow> 'f AsioDriver \<Rightarrow> 'f event list" where
  "emitted d d' = drop (length (trace d)) (trace d')"

fun dispatched :: "'f event list \<Rightarrow> State list" where
  "dispatched [] = []"
| "dispatched (StateDispatch s # evs) = s # dispatched evs"
| "dispatched (e # evs) = dispatched evs"

fun enqueued :: "'f event list \<Rightarrow> 'f list" where
  "enqueued [] = []"
| "enqueued (Enqueue msg # evs) = msg # enqueued evs"
| "enqueued (e # evs) = enqueued evs"

text \<open>
  The constructor: the state is created closed, the socket is bound to the reactor and
  not opened; \<open>f\<close> is the initial content of the input frame.
\<close>

definition AsioDriver_new :: "'f \<Rightarrow> 'f AsioDriver" where
  "AsioDriver_new f =
     \<lparr>state = State_init, socket_is_open = False, io_stopped = False, input = f, trace = []\<rparr>"

text \<open>A driver as constructed whose socket the concrete transport has opened since.\<close>

definition open_driver :: "nat AsioDriver" where
  "open_driver = (AsioDriver_new 0)\<lparr>socket_is_open := True\<rparr>"

subsection \<open>State-mutation helpers\<close>

definition setErrorCode :: "error_code \<Rightarrow> 'f AsioDriver \<Rightarrow> 'f AsioDriver" where
  "setErrorCode error d =
     (let d1 = emit [Lock state_mutex] d;
          d2 = (if error_code (state d1) \<noteq> error
                then (let d' = d1\<lparr>state := (state d1)\<lparr>error_code := error\<rparr>\<rparr>
                      in emit [StateDispatch (state d')] d')
                else d1)
      in emit [Unlock state_mutex] d2)"

definition setInternalError :: "32 word \<Rightarrow> 'f AsioDriver \<Rightarrow> 'f AsioDriver" where
  "setInternalError internal_err d =
     (let d1 = emit [Lock state_mutex] d;
          d2 = (if internal_error (state d1) \<noteq> internal_err
                then (let d' = d1\<lparr>state := (state d1)\<lparr>internal_error := internal_err\<rparr>\<rparr>
                      in emit [StateDispatch (state d')] d')
                else d1)
      in emit [Unlock state_mutex] d2)"

definition setDriverState :: "DriverState \<Rightarrow> 'f AsioDriver \<Rightarrow> 'f AsioDriver" where
  "setDriverState st d =
     (let d1 = emit [Lock state_mutex] d;
          d2 = (if driver_state (state d1) \<noteq> st
                then (let d' = d1\<lparr>state := (state d1)\<lparr>driver_state := st\<rparr>\<rparr>
                      in emit [StateDispatch (state d')] d')
                else d1)
      in emit [Unlock state_mutex] d2)"

definition getState :: "'f AsioDriver \<Rightarrow> State \<times> 'f AsioDriver" where
  "getState d =
     (let d1 = emit [Lock state_mutex] d
      in (state d1, emit [Unlock state_mutex] d1))"

subsection \<open>Collaborators\<close>

text \<open>
  The socket and the reactor are template and library objects: of the socket the driver
  uses \<^verbatim>\<open>is_open\<close>, \<^verbatim>\<open>cancel\<close> and \<^verbatim>\<open>close\<close>, of the reactor \<^verbatim>\<open>reset\<close>,
  \<^verbatim>\<open>stop\<close>, \<^verbatim>\<open>post\<close> and \<^verbatim>\<open>run\<close>.
\<close>

definition socket_cancel :: "'f AsioDriver \<Rightarrow> 'f AsioDriver" where
  "socket_cancel d = emit [SocketCancel] d"

definition socket_close :: "'f AsioDriver \<Rightarrow> 'f AsioDriver" where
  "socket_close d = (emit [SocketClose] d)\<lparr>socket_is_open := False\<rparr>"

definition io_reset :: "'f AsioDriver \<Rightarrow> 'f AsioDriver" where
  "io_reset d = (emit [IoReset] d)\<lparr>io_stopped := False\<rparr>"

definition io_stop :: "'f AsioDriver \<Rightarrow> 'f AsioDriver" where
  "io_stop d = (emit [IoStop] d)\<lparr>io_stopped := True\<rparr>"

text \<open>
  \<^verbatim>\<open>triggerReadSome\<close> and \<^verbatim>\<open>enqueue\<close> are pure virtual: the concrete transport
  supplies them. Their calls are recorded, and whether \<^verbatim>\<open>enqueue\<close> succeeds is the
  transport's answer \<open>enq\<close>.
\<close>

definition triggerReadSome :: "'f AsioDriver \<Rightarrow> 'f AsioDriver" where
  "triggerReadSome d = emit [TriggerReadSome] d"

definition enqueue :: "('f \<Rightarrow> bool) \<Rightarrow> 'f \<Rightarrow> 'f AsioDriver \<Rightarrow> bool \<times> 'f AsioDriver" where
  "enqueue enq msg d = (enq msg, emit [Enqueue msg] d)"

subsection \<open>Read completion, send, shutdown\<close>

definition dispatchFrame :: "'f \<Rightarrow> 'f AsioDriver \<Rightarrow> 'f AsioDriver" where
  "dispatchFrame msg d = emit [FramePost msg] d"

definition frameReceived :: "error_code \<Rightarrow> 'f AsioDriver \<Rightarrow> 'f AsioDriver" where
  "frameReceived error d =
     (if \<not> failed error then triggerReadSome (dispatchFrame (input d) d)
      else setErrorCode error d)"

definition send :: "('f \<Rightarrow> bool) \<Rightarrow> 'f \<Rightarrow> 'f AsioDriver \<Rightarrow> bool \<times> 'f AsioDriver" where
  "send enq msg d =
     (case getState d of (s, d1) \<Rightarrow>
        if driver_state s = ready then enqueue enq msg d1 else (False, d1))"

definition shutdown :: "'f AsioDriver \<Rightarrow> 'f AsioDriver" where
  "shutdown d =
     io_stop (if socket_is_open d then socket_close (socket_cancel d) else d)"

definition destructor :: "'f AsioDriver \<Rightarrow> 'f AsioDriver" where
  "destructor d = shutdown d"

subsection \<open>The reactor loop\<close>

text \<open>
  While \<^verbatim>\<open>io_service_.run\<close> blocks, completion handlers run on the reactor's workers
  and other threads call into the driver. One schedule of these is a list: a read that
  completes with a frame in \<^verbatim>\<open>input_\<close> and an error code, calls of \<^verbatim>\<open>shutdown\<close> and
  \<^verbatim>\<open>send\<close>, calls of the protected helpers by the concrete transport, and a failure
  of the reactor itself. The loop returns once the reactor is stopped or has failed;
  with the keep-alive work installed it does not return otherwise, which is \<open>None\<close>.
\<close>

datatype 'f happening =
    ReadCompleted 'f error_code
  | ShutdownCalled
  | SendCalled 'f
  | ErrorCodeSet error_code
  | InternalErrorSet "32 word"
  | DriverStateSet DriverState
  | ReactorFailed error_code

fun happen :: "('f \<Rightarrow> bool) \<Rightarrow> 'f happening \<Rightarrow> 'f AsioDriver \<Rightarrow> 'f AsioDriver" where
  "happen enq (ReadCompleted f e) d = frameReceived e (d\<lparr>input := f\<rparr>)"
| "happen enq ShutdownCalled d = shutdown d"
| "happen enq (SendCalled msg) d = snd (send enq msg d)"
| "happen enq (ErrorCodeSet e) d = setErrorCode e d"
| "happen enq (InternalErrorSet n) d = setInternalError n d"
| "happen enq (DriverStateSet st) d = setDriverState st d"
| "happen enq (ReactorFailed e) d = d"

fun io_run :: "('f \<Rightarrow> bool) \<Rightarrow> 'f happening list \<Rightarrow> 'f AsioDriver
    \<Rightarrow> (error_code \<times> 'f AsioDriver) option" where
  "io_run enq [] d = (if io_stopped d then Some (success, d) else None)"
| "io_run enq (h # hs) d =
     (if io_stopped d then Some (success, d)
      else (case h of ReactorFailed e \<Rightarrow> Some (e, d)
            | _ \<Rightarrow> io_run enq hs (happen enq h d)))"

definition socket_status :: "'f AsioDriver \<Rightarrow> DriverState" where
  "socket_status d = (if socket_is_open d then opened else closed)"

definition run :: "('f \<Rightarrow> bool) \<Rightarrow> 'f happening list \<Rightarrow> 'f AsioDriver
    \<Rightarrow> 'f AsioDriver option" where
  "run enq sched d =
     (let d1 = setDriverState (socket_status d) d
      in case getState d1 of (s, d2) \<Rightarrow>
        if driver_state s = opened then
          (let d3 = io_reset d2;
               d4 = emit [IoWork] d3;
               d5 = setDriverState ready d4;
               d6 = emit [IoThread] d5;
               d7 = triggerReadSome d6
           in case io_run enq sched d7 of
                None \<Rightarrow> None
              | Some (ec, d8) \<Rightarrow>
                  (let d9 = setErrorCode ec d8;
                       d10 = setDriverState (socket_status d9) d9
                   in Some (emit [StateDispatch (state d10)] d10)))
        else Some (emit [StateDispatch (state d2)] d2))"

section \<open>State waiter\<close>

record StateWaiter =
  waiter_state :: State

definition updateState :: "State \<Rightarrow> StateWaiter \<Rightarrow> StateWaiter" where
  "updateState s w = w\<lparr>waiter_state := s\<rparr>"

text \<open>
  One return of \<^verbatim>\<open>cond_.timed_wait\<close>. The condition variable releases the waiter's
  mutex while the caller is blocked, so the listener may have stored states through
  \<^verbatim>\<open>updateState\<close> in between; the call returns at some system time, by a notification
  or spuriously, and it returns false when the deadline has been reached.
\<close>

record wakeup =
  delivered :: "State list"
  woke_at :: nat

definition deliver :: "wakeup \<Rightarrow> StateWaiter \<Rightarrow> StateWaiter" where
  "deliver wk w = foldl (\<lambda>w s. updateState s w) w (delivered wk)"

definition timed_wait :: "nat \<Rightarrow> wakeup \<Rightarrow> StateWaiter \<Rightarrow> bool \<times> StateWaiter" where
  "timed_wait abs_time wk w = (woke_at wk < abs_time, deliver wk w)"

text \<open>
  The loop of \<^verbatim>\<open>wait\<close> over the returns of \<^verbatim>\<open>timed_wait\<close> that the schedule holds;
  \<open>None\<close> when the caller is still blocked after the last of them.
\<close>

fun wait_loop :: "DriverState \<Rightarrow> nat \<Rightarrow> wakeup list \<Rightarrow> StateWaiter \<Rightarrow> bool option" where
  "wait_loop s abs_time [] w =
     (if s \<noteq> driver_state (waiter_state w) then None else Some True)"
| "wait_loop s abs_time (wk # wks) w =
     (if s \<noteq> driver_state (waiter_state w) then
        (case timed_wait abs_time wk w of (woken, w') \<Rightarrow>
           if \<not> woken then Some False else wait_loop s abs_time wks w')
      else Some True)"

definition wait :: "DriverState \<Rightarrow> nat \<Rightarrow> nat \<Rightarrow> wakeup list \<Rightarrow> StateWaiter \<Rightarrow> bool option" where
  "wait s duration now wks w = (let abs_time = now + duration in wait_loop s abs_time wks w)"

text \<open>The states a list of wake-ups leaves in the waiter.\<close>

definition stored :: "wakeup list \<Rightarrow> StateWaiter \<Rightarrow> StateWaiter" where
  "stored wks w = foldl (\<lambda>w wk. deliver wk w) w wks"

section \<open>Threaded interface\<close>

text \<open>System time and durations are counted in microseconds.\<close>

definition seconds :: "nat \<Rightarrow> nat" where
  "seconds n = n * 1000000"

subsection \<open>The thread that runs the driver\<close>

text \<open>
  \<^verbatim>\<open>init\<close> starts a thread on \<^verbatim>\<open>run_thread\<close>, which calls \<^verbatim>\<open>run\<close> of the wrapped
  driver, and goes on while that thread runs. So \<^verbatim>\<open>run\<close> is taken statement by
  statement here: where the thread stands in \<^verbatim>\<open>run\<close>, and what is still to happen in
  its reactor loop. One step is one statement; in the loop it is one item of the schedule,
  and the thread stays in the loop while nothing is pending and the reactor is not
  stopped.
\<close>

datatype run_pc =
    AtEntry
  | AtCheck
  | AtReset
  | AtWork
  | AtReady
  | AtPostThread
  | AtTrigger
  | InLoop
  | AtSetErrorCode error_code
  | AtSetStatus
  | AtFinalDispatch
  | Returned

record 'f run_thread =
  pc :: run_pc
  pending :: "'f happening list"

definition run_step :: "('f \<Rightarrow> bool) \<Rightarrow> 'f run_thread \<times> 'f AsioDriver
    \<Rightarrow> 'f run_thread \<times> 'f AsioDriver" where
  "run_step enq = (\<lambda>(th, d).
     case pc th of
       AtEntry \<Rightarrow> (th\<lparr>pc := AtCheck\<rparr>, setDriverState (socket_status d) d)
     | AtCheck \<Rightarrow>
         (case getState d of (s, d') \<Rightarrow>
            (th\<lparr>pc := (if driver_state s = opened then AtReset else AtFinalDispatch)\<rparr>, d'))
     | AtReset \<Rightarrow> (th\<lparr>pc := AtWork\<rparr>, io_reset d)
     | AtWork \<Rightarrow> (th\<lparr>pc := AtReady\<rparr>, emit [IoWork] d)
     | AtReady \<Rightarrow> (th\<lparr>pc := AtPostThread\<rparr>, setDriverState ready d)
     | AtPostThread \<Rightarrow> (th\<lparr>pc := AtTrigger\<rparr>, emit [IoThread] d)
     | AtTrigger \<Rightarrow> (th\<lparr>pc := InLoop\<rparr>, triggerReadSome d)
     | InLoop \<Rightarrow>
         (if io_stopped d then (th\<lparr>pc := AtSetErrorCode success\<rparr>, d)
          else (case pending th of
                  [] \<Rightarrow> (th, d)
                | h # hs \<Rightarrow>
                    (case h of
                       ReactorFailed e \<Rightarrow> (th\<lparr>pc := AtSetErrorCode e, pending := hs\<rparr>, d)
                     | _ \<Rightarrow> (th\<lparr>pending := hs\<rparr>, happen enq h d))))
     | AtSetErrorCode ec \<Rightarrow> (th\<lparr>pc := AtSetStatus\<rparr>, setErrorCode ec d)
     | AtSetStatus \<Rightarrow> (th\<lparr>pc := AtFinalDispatch\<rparr>, setDriverState (socket_status d) d)
     | AtFinalDispatch \<Rightarrow> (th\<lparr>pc := Returned\<rparr>, emit [StateDispatch (state d)] d)
     | Returned \<Rightarrow> (th, d))"

text \<open>The thread as \<^verbatim>\<open>boost::thread\<close> starts it: at the entry of \<^verbatim>\<open>run\<close>.\<close>

definition run_thread_new :: "'f happening list \<Rightarrow> 'f run_thread" where
  "run_thread_new sched = \<lparr>pc = AtEntry, pending = sched\<rparr>"

text \<open>
  The interface is the wrapped driver and the tracked thread \<^verbatim>\<open>thread_\<close>; a thread that
  has returned from \<^verbatim>\<open>run\<close> stays tracked. The tracked thread takes \<open>n\<close> steps with
  \<open>advance\<close>.
\<close>

record 'f ThreadedInterface =
  wrapped :: "'f AsioDriver"
  thread :: "'f run_thread option"

definition advance :: "('f \<Rightarrow> bool) \<Rightarrow> nat \<Rightarrow> 'f ThreadedInterface \<Rightarrow> 'f ThreadedInterface" where
  "advance enq n t =
     (case thread t of
        None \<Rightarrow> t
      | Some th \<Rightarrow>
          (case (run_step enq ^^ n) (th, wrapped t) of
             (th', d) \<Rightarrow> t\<lparr>wrapped := d, thread := Some th'\<rparr>))"

subsection \<open>The waiter beside the running thread\<close>

text \<open>
  The listener of the waiter is called with every state that is dispatched once it is
  registered: \<open>heard\<close> is what the listener registered last has received, and \<open>listen\<close>
  what it has received from one moment to a later one.
\<close>

fun after_listener :: "'f event list \<Rightarrow> 'f event list option" where
  "after_listener [] = None"
| "after_listener (e # es) =
     (case after_listener es of
        Some later \<Rightarrow> Some later
      | None \<Rightarrow> (if e = CreateStateListener then Some es else None))"

definition heard :: "'f event list \<Rightarrow> State list" where
  "heard es = (case after_listener es of None \<Rightarrow> [] | Some later \<Rightarrow> dispatched later)"

definition listen :: "'f AsioDriver \<Rightarrow> 'f AsioDriver \<Rightarrow> State list" where
  "listen d d' = drop (length (heard (trace d))) (heard (trace d'))"

text \<open>
  How the caller of \<^verbatim>\<open>init\<close> and the thread interleave: the steps the thread takes
  before the caller reads the state of the driver, between that read and the registration
  of the listener, between the registration and the entry of \<^verbatim>\<open>wait\<close>, and for each return
  of \<^verbatim>\<open>timed_wait\<close> the steps the thread takes while the caller is blocked and the system
  time at which the wake-up arrives.
\<close>

record interleaving =
  before_snapshot :: nat
  before_listener :: nat
  before_wait :: nat
  wakeups :: "(nat \<times> nat) list"

text \<open>
  The constructor of the waiter reads the state of the interface and then registers its
  listener; the thread may run in between.
\<close>

definition StateWaiter_new :: "('f \<Rightarrow> bool) \<Rightarrow> nat \<Rightarrow> 'f ThreadedInterface
    \<Rightarrow> StateWaiter \<times> 'f ThreadedInterface" where
  "StateWaiter_new enq between interface =
     (case getState (wrapped interface) of (s, d) \<Rightarrow>
        (let t1 = advance enq between (interface\<lparr>wrapped := d\<rparr>)
         in (\<lparr>waiter_state = s\<rparr>, t1\<lparr>wrapped := emit [CreateStateListener] (wrapped t1)\<rparr>)))"

text \<open>
  The returns of \<^verbatim>\<open>timed_wait\<close> as the thread makes them: each delivers what the listener
  received while the caller was blocked.
\<close>

fun hear :: "('f \<Rightarrow> bool) \<Rightarrow> (nat \<times> nat) list \<Rightarrow> 'f ThreadedInterface \<Rightarrow> wakeup list" where
  "hear enq [] t = []"
| "hear enq ((n, at) # rest) t =
     \<lparr>delivered = listen (wrapped t) (wrapped (advance enq n t)), woke_at = at\<rparr>
       # hear enq rest (advance enq n t)"

text \<open>The number of returns of \<^verbatim>\<open>timed_wait\<close> that \<^verbatim>\<open>wait\<close> has used when it returns.\<close>

fun timed_waits :: "DriverState \<Rightarrow> nat \<Rightarrow> wakeup list \<Rightarrow> StateWaiter \<Rightarrow> nat" where
  "timed_waits s abs_time [] w = 0"
| "timed_waits s abs_time (wk # wks) w =
     (if s \<noteq> driver_state (waiter_state w) then
        (case timed_wait abs_time wk w of (woken, w') \<Rightarrow>
           if \<not> woken then 1 else 1 + timed_waits s abs_time wks w')
      else 0)"

text \<open>
  \<^verbatim>\<open>wait_for\<close> constructs the waiter and waits. \<open>waiting\<close> is the waiter and the
  interface at the moment \<^verbatim>\<open>wait\<close> takes the mutex of the waiter: the listener has stored
  what it received since its registration.
\<close>

definition waiting :: "('f \<Rightarrow> bool) \<Rightarrow> interleaving \<Rightarrow> 'f ThreadedInterface
    \<Rightarrow> StateWaiter \<times> 'f ThreadedInterface" where
  "waiting enq il interface =
     (case StateWaiter_new enq (before_listener il)
             (advance enq (before_snapshot il) interface) of (waiter, t1) \<Rightarrow>
        (let t2 = advance enq (before_wait il) t1
         in (foldl (\<lambda>w st. updateState st w) waiter (listen (wrapped t1) (wrapped t2)), t2)))"

definition wait_for :: "('f \<Rightarrow> bool) \<Rightarrow> DriverState \<Rightarrow> 'f ThreadedInterface \<Rightarrow> nat \<Rightarrow> interleaving \<Rightarrow> nat
    \<Rightarrow> bool option \<times> 'f ThreadedInterface" where
  "wait_for enq s interface duration il now =
     (case waiting enq il interface of (waiter, t2) \<Rightarrow>
        (let wks = hear enq (wakeups il) t2;
             n = timed_waits s (now + duration) wks waiter
         in (wait s duration now wks waiter,
             advance enq (sum_list (map fst (take n (wakeups il)))) t2)))"

subsection \<open>Starting the thread\<close>

text \<open>
  \<^verbatim>\<open>WrappedInterface::init\<close> belongs to the concrete driver: \<open>winit\<close> is its effect on
  the driver and its answer. \<open>sched\<close> is what will happen in the reactor loop of the new
  thread.
\<close>

definition currently_ready :: "'f ThreadedInterface \<Rightarrow> bool option \<times> 'f ThreadedInterface" where
  "currently_ready t =
     (case getState (wrapped t) of (s, d) \<Rightarrow> (Some (isReady s), t\<lparr>wrapped := d\<rparr>))"

definition start_thread :: "'f happening list \<Rightarrow> 'f ThreadedInterface \<Rightarrow> 'f ThreadedInterface" where
  "start_thread sched t = t\<lparr>thread := Some (run_thread_new sched)\<rparr>"

definition init :: "(string \<Rightarrow> bool \<Rightarrow> 'f AsioDriver \<Rightarrow> bool \<times> 'f AsioDriver) \<Rightarrow> ('f \<Rightarrow> bool)
    \<Rightarrow> 'f happening list \<Rightarrow> interleaving \<Rightarrow> nat
    \<Rightarrow> string \<Rightarrow> bool \<Rightarrow> 'f ThreadedInterface \<Rightarrow> bool option \<times> 'f ThreadedInterface" where
  "init winit enq sched il now device loopback t =
     (if thread t = None then
        (case winit device loopback (wrapped t) of (ok, d) \<Rightarrow>
           if ok then
             wait_for enq ready (start_thread sched (t\<lparr>wrapped := d\<rparr>)) (seconds 1) il now
           else currently_ready (t\<lparr>wrapped := d\<rparr>))
      else currently_ready (advance enq (before_snapshot il) t))"

text \<open>
  Inputs for the examples: a wrapped \<^verbatim>\<open>init\<close> that opens the socket, one that fails, a
  transport that accepts every frame, an interface as constructed, one whose thread has
  just been started, and two interleavings.
\<close>

definition winit_opens :: "string \<Rightarrow> bool \<Rightarrow> nat AsioDriver \<Rightarrow> bool \<times> nat AsioDriver" where
  "winit_opens device loopback d = (True, d\<lparr>socket_is_open := True\<rparr>)"

definition winit_fails :: "string \<Rightarrow> bool \<Rightarrow> nat AsioDriver \<Rightarrow> bool \<times> nat AsioDriver" where
  "winit_fails device loopback d = (False, d)"

definition enq_accepts :: "nat \<Rightarrow> bool" where
  "enq_accepts msg = True"

definition fresh_interface :: "nat ThreadedInterface" where
  "fresh_interface = \<lparr>wrapped = AsioDriver_new 0, thread = None\<rparr>"

definition running_interface :: "nat ThreadedInterface" where
  "running_interface = \<lparr>wrapped = open_driver, thread = Some (run_thread_new [])\<rparr>"

definition hears_ready :: interleaving where
  "hears_ready =
     \<lparr>before_snapshot = 0, before_listener = 0, before_wait = 0,
      wakeups = [(2, 10), (3, 20), (0, 1000000)]\<rparr>"

definition ready_at_snapshot :: interleaving where
  "ready_at_snapshot =
     \<lparr>before_snapshot = 5, before_listener = 0, before_wait = 0, wakeups = [(0, 1000000)]\<rparr>"

section \<open>Locks\<close>

text \<open>The mutexes held after an event, and the mutexes held at each use of the socket.\<close>

fun held_after :: "mutex list \<Rightarrow> 'f event \<Rightarrow> mutex list" where
  "held_after hs (Lock m) = m # hs"
| "held_after hs (Unlock m) = remove1 m hs"
| "held_after hs e = hs"

fun uses_socket :: "'f event \<Rightarrow> bool" where
  "uses_socket (Enqueue msg) = True"
| "uses_socket SocketCancel = True"
| "uses_socket SocketClose = True"
| "uses_socket e = False"

fun held_at_socket :: "mutex list \<Rightarrow> 'f event list \<Rightarrow> mutex list list" where
  "held_at_socket hs [] = []"
| "held_at_socket hs (e # es) =
     (if uses_socket e then [hs] else []) @ held_at_socket (held_after hs e) es"

fun held_along :: "mutex list \<Rightarrow> 'f event list \<Rightarrow> mutex list list" where
  "held_along hs [] = [hs]"
| "held_along hs (e # es) = hs # held_along (held_after hs e) es"

text \<open>
  The spec's words for the socket: every use of it is made with the socket mutex held
  (\<open>serialized\<close>), and at no point are the state mutex and the socket mutex held
  together (not \<open>nested\<close>).
\<close>

definition serialized :: "'f event list \<Rightarrow> bool" where
  "serialized es = list_all (\<lambda>hs. socket_mutex \<in> set hs) (held_at_socket [] es)"

definition nested :: "'f event list \<Rightarrow> bool" where
  "nested es = list_ex (\<lambda>hs. state_mutex \<in> set hs \<and> socket_mutex \<in> set hs) (held_along [] es)"

text \<open>From \<open>d\<close> to \<open>d'\<close> the driver only added events, and it never took the socket mutex.\<close>

definition spares_socket_mutex :: "'f AsioDriver \<Rightarrow> 'f AsioDriver \<Rightarrow> bool" where
  "spares_socket_mutex d d' =
     (take (length (trace d)) (trace d') = trace d \<and>
      Lock socket_mutex \<notin> set (emitted d d'))"

section \<open>Notification on change\<close>

text \<open>
  From \<open>d\<close> to \<open>d'\<close> the driver only added events, every state it handed to the
  state observers differs from the one stored before, and the state it ends in is the
  last one it handed out (or the one it started in).
\<close>

definition tracks :: "'f AsioDriver \<Rightarrow> 'f AsioDriver \<Rightarrow> bool" where
  "tracks d d' =
     (take (length (trace d)) (trace d') = trace d \<and>
      distinct_adj (state d # dispatched (emitted d d')) \<and>
      state d' = last (state d # dispatched (emitted d d')))"

section \<open>Properties\<close>

subsection \<open>What each operation does\<close>

lemma emitted_emit: "emitted d (emit evs d) = evs"
  by (simp add: emitted_def emit_def)

lemma emitted_emit_upd [simp]: "emitted d (emit evs (d\<lparr>state := s\<rparr>)) = evs"
  by (simp add: emitted_def emit_def)

lemma state_emit [simp]: "state (emit evs d) = state d"
  by (simp add: emit_def)

lemma socket_emit [simp]: "socket_is_open (emit evs d) = socket_is_open d"
  by (simp add: emit_def)

lemma io_stopped_emit [simp]: "io_stopped (emit evs d) = io_stopped d"
  by (simp add: emit_def)

lemma getState_eq: "getState d = (state d, emit [Lock state_mutex, Unlock state_mutex] d)"
  by (simp add: getState_def emit_def)

lemma setErrorCode_effect:
  "setErrorCode v d =
     (if error_code (state d) \<noteq> v
      then emit [Lock state_mutex, StateDispatch ((state d)\<lparr>error_code := v\<rparr>), Unlock state_mutex]
             (d\<lparr>state := (state d)\<lparr>error_code := v\<rparr>\<rparr>)
      else emit [Lock state_mutex, Unlock state_mutex] d)"
  by (simp add: setErrorCode_def emit_def Let_def)

lemma setInternalError_effect:
  "setInternalError v d =
     (if internal_error (state d) \<noteq> v
      then emit [Lock state_mutex, StateDispatch ((state d)\<lparr>internal_error := v\<rparr>), Unlock state_mutex]
             (d\<lparr>state := (state d)\<lparr>internal_error := v\<rparr>\<rparr>)
      else emit [Lock state_mutex, Unlock state_mutex] d)"
  by (simp add: setInternalError_def emit_def Let_def)

lemma setDriverState_effect:
  "setDriverState v d =
     (if driver_state (state d) \<noteq> v
      then emit [Lock state_mutex, StateDispatch ((state d)\<lparr>driver_state := v\<rparr>), Unlock state_mutex]
             (d\<lparr>state := (state d)\<lparr>driver_state := v\<rparr>\<rparr>)
      else emit [Lock state_mutex, Unlock state_mutex] d)"
  by (simp add: setDriverState_def emit_def Let_def)

lemma setDriverState_sets [simp]: "driver_state (state (setDriverState st d)) = st"
  by (simp add: setDriverState_def emit_def Let_def)

lemma setDriverState_socket [simp]: "socket_is_open (setDriverState st d) = socket_is_open d"
  by (simp add: setDriverState_def emit_def Let_def)

lemma send_effect:
  "send enq msg d =
     (driver_state (state d) = ready \<and> enq msg,
      emit ([Lock state_mutex, Unlock state_mutex] @
            (if driver_state (state d) = ready then [Enqueue msg] else [])) d)"
  by (simp add: send_def getState_def enqueue_def emit_def)

lemma frameReceived_effect:
  "frameReceived e d =
     (if \<not> failed e then emit [FramePost (input d), TriggerReadSome] d else setErrorCode e d)"
  by (simp add: frameReceived_def triggerReadSome_def dispatchFrame_def emit_def)

lemma shutdown_effect:
  "shutdown d =
     (emit ((if socket_is_open d then [SocketCancel, SocketClose] else []) @ [IoStop]) d)
       \<lparr>socket_is_open := False, io_stopped := True\<rparr>"
  by (simp add: shutdown_def io_stop_def socket_close_def socket_cancel_def emit_def)

subsection \<open>Single operations of the driver\<close>

text \<open>
  C1. \<^verbatim>\<open>send\<close> returns true exactly when the link status is ready and the transport's
  enqueue succeeds. In the status ready, enqueue is called once with the frame; in every
  other status \<^verbatim>\<open>send\<close> returns false and enqueue is not called.
\<close>
theorem send_only_when_ready:
  "fst (send enq msg d) = (driver_state (state d) = ready \<and> enq msg) \<and>
   (driver_state (state d) = ready \<longrightarrow> enqueued (emitted d (snd (send enq msg d))) = [msg]) \<and>
   (driver_state (state d) \<noteq> ready \<longrightarrow>
      fst (send enq msg d) = False \<and> enqueued (emitted d (snd (send enq msg d))) = [])"
  by (simp add: send_effect emitted_emit)

theorem send_only_when_ready_witness:
  "driver_state (state (AsioDriver_new (0::nat))) \<noteq> ready \<and>
   fst (send (\<lambda>m. True) 7 (AsioDriver_new (0::nat))) = False \<and>
   enqueued (emitted (AsioDriver_new 0) (snd (send (\<lambda>m. True) 7 (AsioDriver_new (0::nat))))) = []"
  using send_only_when_ready [of "\<lambda>m. True" 7 "AsioDriver_new (0::nat)"]
  by (simp add: AsioDriver_new_def State_init_def)

text \<open>
  C3. Each of \<^verbatim>\<open>setErrorCode\<close>, \<^verbatim>\<open>setInternalError\<close> and \<^verbatim>\<open>setDriverState\<close>,
  called with a value that differs from the stored field, stores the value and hands the
  updated state to the state observers exactly once; called with the stored value, it
  leaves the state as it is and hands nothing to the observers.
\<close>
theorem helpers_notify_on_change:
  "(e \<noteq> error_code (state d) \<longrightarrow>
      state (setErrorCode e d) = (state d)\<lparr>error_code := e\<rparr> \<and>
      dispatched (emitted d (setErrorCode e d)) = [state (setErrorCode e d)]) \<and>
   (e = error_code (state d) \<longrightarrow>
      state (setErrorCode e d) = state d \<and> dispatched (emitted d (setErrorCode e d)) = []) \<and>
   (n \<noteq> internal_error (state d) \<longrightarrow>
      state (setInternalError n d) = (state d)\<lparr>internal_error := n\<rparr> \<and>
      dispatched (emitted d (setInternalError n d)) = [state (setInternalError n d)]) \<and>
   (n = internal_error (state d) \<longrightarrow>
      state (setInternalError n d) = state d \<and> dispatched (emitted d (setInternalError n d)) = []) \<and>
   (st \<noteq> driver_state (state d) \<longrightarrow>
      state (setDriverState st d) = (state d)\<lparr>driver_state := st\<rparr> \<and>
      dispatched (emitted d (setDriverState st d)) = [state (setDriverState st d)]) \<and>
   (st = driver_state (state d) \<longrightarrow>
      state (setDriverState st d) = state d \<and> dispatched (emitted d (setDriverState st d)) = [])"
  by (simp add: setErrorCode_effect setInternalError_effect setDriverState_effect emitted_emit)

theorem helpers_notify_on_change_witness:
  "ErrorCode 5 0 \<noteq> error_code (state (AsioDriver_new (0::nat))) \<and>
   dispatched (emitted (AsioDriver_new (0::nat)) (setErrorCode (ErrorCode 5 0) (AsioDriver_new 0))) =
     [\<lparr>driver_state = closed, error_code = ErrorCode 5 0, internal_error = 0\<rparr>] \<and>
   3 \<noteq> internal_error (state (AsioDriver_new (0::nat))) \<and>
   dispatched (emitted (AsioDriver_new (0::nat)) (setInternalError 3 (AsioDriver_new 0))) =
     [\<lparr>driver_state = closed, error_code = success, internal_error = 3\<rparr>] \<and>
   opened \<noteq> driver_state (state (AsioDriver_new (0::nat))) \<and>
   dispatched (emitted (AsioDriver_new (0::nat)) (setDriverState opened (AsioDriver_new 0))) =
     [\<lparr>driver_state = opened, error_code = success, internal_error = 0\<rparr>] \<and>
   success = error_code (state (AsioDriver_new (0::nat))) \<and>
   dispatched (emitted (AsioDriver_new (0::nat)) (setErrorCode success (AsioDriver_new 0))) = [] \<and>
   0 = internal_error (state (AsioDriver_new (0::nat))) \<and>
   dispatched (emitted (AsioDriver_new (0::nat)) (setInternalError 0 (AsioDriver_new 0))) = [] \<and>
   closed = driver_state (state (AsioDriver_new (0::nat))) \<and>
   dispatched (emitted (AsioDriver_new (0::nat)) (setDriverState closed (AsioDriver_new 0))) = []"
  using helpers_notify_on_change [of "ErrorCode 5 0" "AsioDriver_new (0::nat)" 3 opened]
    helpers_notify_on_change [of success "AsioDriver_new (0::nat)" 0 closed]
  by (simp add: AsioDriver_new_def State_init_def success_def)

text \<open>
  C4. A read completion without error posts the dispatch of the received frame and arms
  the next read, and leaves the state alone. A read completion with an error does not arm
  a read; it records the error code in the state, and the state observers are notified
  exactly when the code changed. In neither case is the reactor stopped.
\<close>
theorem frameReceived_chain:
  "(\<not> failed e \<longrightarrow>
      emitted d (frameReceived e d) = [FramePost (input d), TriggerReadSome] \<and>
      state (frameReceived e d) = state d) \<and>
   (failed e \<longrightarrow>
      TriggerReadSome \<notin> set (emitted d (frameReceived e d)) \<and>
      error_code (state (frameReceived e d)) = e \<and>
      dispatched (emitted d (frameReceived e d)) =
        (if e \<noteq> error_code (state d) then [state (frameReceived e d)] else [])) \<and>
   io_stopped (frameReceived e d) = io_stopped d"
  by (simp add: frameReceived_effect setErrorCode_effect emitted_emit)

theorem frameReceived_chain_witness:
  "\<not> failed success \<and>
   emitted (AsioDriver_new (4::nat)) (frameReceived success (AsioDriver_new 4)) =
     [FramePost 4, TriggerReadSome] \<and>
   failed (ErrorCode 9 0) \<and>
   TriggerReadSome \<notin> set (emitted (AsioDriver_new (4::nat)) (frameReceived (ErrorCode 9 0) (AsioDriver_new 4))) \<and>
   dispatched (emitted (AsioDriver_new (4::nat)) (frameReceived (ErrorCode 9 0) (AsioDriver_new 4))) =
     [\<lparr>driver_state = closed, error_code = ErrorCode 9 0, internal_error = 0\<rparr>]"
  using frameReceived_chain [of success "AsioDriver_new (4::nat)"]
    frameReceived_chain [of "ErrorCode 9 0" "AsioDriver_new (4::nat)"]
  by (simp add: AsioDriver_new_def State_init_def success_def failed_def
        frameReceived_effect setErrorCode_effect emit_def)

text \<open>
  C5. A second \<^verbatim>\<open>shutdown\<close> right after a first one only repeats the request to stop
  the reactor: the socket is closed already, so nothing is cancelled or closed, no field
  of the driver changes, and neither call hands a state to the state observers.
\<close>
theorem shutdown_idempotent:
  "shutdown (shutdown d) = (shutdown d)\<lparr>trace := trace (shutdown d) @ [IoStop]\<rparr> \<and>
   emitted (shutdown d) (shutdown (shutdown d)) = [IoStop] \<and>
   dispatched (emitted d (shutdown (shutdown d))) = []"
  by (simp add: shutdown_effect emit_def emitted_def)

text \<open>
  C10. The destructor does what \<^verbatim>\<open>shutdown\<close> does: on a driver whose socket is open
  it cancels the pending operations, closes the socket and stops the reactor; afterwards
  the socket is closed and the reactor is stopped in every case.
\<close>
theorem destructor_shuts_down:
  "destructor d = shutdown d \<and>
   (socket_is_open d \<longrightarrow> emitted d (destructor d) = [SocketCancel, SocketClose, IoStop]) \<and>
   \<not> socket_is_open (destructor d) \<and> io_stopped (destructor d)"
  by (simp add: destructor_def shutdown_effect emit_def emitted_def)

theorem destructor_shuts_down_witness:
  "socket_is_open open_driver \<and>
   emitted open_driver
     (destructor open_driver) =
     [SocketCancel, SocketClose, IoStop]"
  using destructor_shuts_down [of open_driver]
  by (simp add: destructor_def open_driver_def)

subsection \<open>Notifications along a run\<close>

lemma dispatched_append: "dispatched (xs @ ys) = dispatched xs @ dispatched ys"
  by (induction xs rule: dispatched.induct) auto

lemma tracksI:
  "trace d' = trace d @ evs \<Longrightarrow> distinct_adj (state d # dispatched evs) \<Longrightarrow>
   state d' = last (state d # dispatched evs) \<Longrightarrow> tracks d d'"
  by (simp add: tracks_def emitted_def)

lemma tracksE:
  assumes "tracks d d'"
  obtains evs where "trace d' = trace d @ evs" "emitted d d' = evs"
    "distinct_adj (state d # dispatched evs)" "state d' = last (state d # dispatched evs)"
proof -
  from assms have "trace d' = trace d @ emitted d d'"
    unfolding tracks_def emitted_def by (metis append_take_drop_id)
  with assms that show thesis unfolding tracks_def by blast
qed

lemma tracks_refl: "tracks d d"
  by (rule tracksI [where evs = "[]"]) simp_all

lemma tracks_trans [trans]:
  assumes "tracks a b" "tracks b c"
  shows "tracks a c"
proof -
  from assms(1) obtain e1 where 1: "trace b = trace a @ e1"
    "distinct_adj (state a # dispatched e1)" "state b = last (state a # dispatched e1)"
    by (rule tracksE)
  from assms(2) obtain e2 where 2: "trace c = trace b @ e2"
    "distinct_adj (state b # dispatched e2)" "state c = last (state b # dispatched e2)"
    by (rule tracksE)
  show ?thesis
  proof (rule tracksI [where evs = "e1 @ e2"])
    show "trace c = trace a @ e1 @ e2" using 1 2 by simp
    show "distinct_adj (state a # dispatched (e1 @ e2))"
      using 1 2
      by (cases "dispatched e2")
         (auto simp: dispatched_append distinct_adj_append_iff distinct_adj_Cons
               simp flip: append_Cons)
    show "state c = last (state a # dispatched (e1 @ e2))"
      using 1 2 by (simp add: dispatched_append last_append)
  qed
qed

lemma tracks_quiet:
  "trace d' = trace d @ evs \<Longrightarrow> dispatched evs = [] \<Longrightarrow> state d' = state d \<Longrightarrow> tracks d d'"
  by (rule tracksI [where evs = evs]) simp_all

lemma tracks_emit: "dispatched evs = [] \<Longrightarrow> tracks d (emit evs d)"
  by (rule tracks_quiet [where evs = evs]) (simp_all add: emit_def)

lemma tracks_setErrorCode: "tracks d (setErrorCode e d)"
proof (cases "error_code (state d) = e")
  case True
  then show ?thesis
    by (intro tracks_quiet [where evs = "[Lock state_mutex, Unlock state_mutex]"])
       (simp_all add: setErrorCode_def emit_def)
next
  case False
  then have "state d \<noteq> (state d)\<lparr>error_code := e\<rparr>"
    by (metis State.select_convs(2) State.surjective State.update_convs(2))
  with False show ?thesis
    by (intro tracksI [where evs = "[Lock state_mutex,
            StateDispatch ((state d)\<lparr>error_code := e\<rparr>), Unlock state_mutex]"])
       (simp_all add: setErrorCode_def emit_def Let_def)
qed

lemma tracks_setInternalError: "tracks d (setInternalError n d)"
proof (cases "internal_error (state d) = n")
  case True
  then show ?thesis
    by (intro tracks_quiet [where evs = "[Lock state_mutex, Unlock state_mutex]"])
       (simp_all add: setInternalError_def emit_def)
next
  case False
  then have "state d \<noteq> (state d)\<lparr>internal_error := n\<rparr>"
    by (metis State.select_convs(3) State.surjective State.update_convs(3))
  with False show ?thesis
    by (intro tracksI [where evs = "[Lock state_mutex,
            StateDispatch ((state d)\<lparr>internal_error := n\<rparr>), Unlock state_mutex]"])
       (simp_all add: setInternalError_def emit_def Let_def)
qed

lemma tracks_setDriverState: "tracks d (setDriverState st d)"
proof (cases "driver_state (state d) = st")
  case True
  then show ?thesis
    by (intro tracks_quiet [where evs = "[Lock state_mutex, Unlock state_mutex]"])
       (simp_all add: setDriverState_def emit_def)
next
  case False
  then have "state d \<noteq> (state d)\<lparr>driver_state := st\<rparr>"
    by (metis State.select_convs(1) State.surjective State.update_convs(1))
  with False show ?thesis
    by (intro tracksI [where evs = "[Lock state_mutex,
            StateDispatch ((state d)\<lparr>driver_state := st\<rparr>), Unlock state_mutex]"])
       (simp_all add: setDriverState_def emit_def Let_def)
qed

lemma tracks_shutdown: "tracks d (shutdown d)"
  by (rule tracks_quiet [where evs =
        "(if socket_is_open d then [SocketCancel, SocketClose] else []) @ [IoStop]"])
     (simp_all add: shutdown_def io_stop_def socket_close_def socket_cancel_def emit_def)

lemma tracks_send: "tracks d (snd (send enq msg d))"
  by (rule tracks_quiet [where evs = "[Lock state_mutex, Unlock state_mutex] @
          (if driver_state (state d) = ready then [Enqueue msg] else [])"])
     (simp_all add: send_def getState_def enqueue_def emit_def)

lemma tracks_frameReceived: "tracks d (frameReceived e d)"
proof (cases "failed e")
  case True
  then show ?thesis by (simp add: frameReceived_def tracks_setErrorCode)
next
  case False
  then show ?thesis
    by (intro tracks_quiet [where evs = "[FramePost (input d), TriggerReadSome]"])
       (simp_all add: frameReceived_def triggerReadSome_def dispatchFrame_def emit_def)
qed

lemma tracks_input: "tracks (d\<lparr>input := f\<rparr>) d' \<Longrightarrow> tracks d d'"
  by (simp add: tracks_def emitted_def)

lemma tracks_happen: "tracks d (happen enq h d)"
proof (cases h)
  case (ReadCompleted f e)
  have "tracks (d\<lparr>input := f\<rparr>) (frameReceived e (d\<lparr>input := f\<rparr>))"
    by (rule tracks_frameReceived)
  then show ?thesis using ReadCompleted by (simp add: tracks_input)
qed (simp_all add: tracks_shutdown tracks_send
        tracks_setErrorCode tracks_setInternalError tracks_setDriverState tracks_refl)

lemma tracks_io_run: "io_run enq hs d = Some (ec, d') \<Longrightarrow> tracks d d'"
proof (induction hs arbitrary: d)
  case Nil
  then show ?case by (auto simp: tracks_refl split: if_splits)
next
  case (Cons h hs)
  show ?case
  proof (cases "io_stopped d")
    case True
    with Cons.prems show ?thesis by (simp add: tracks_refl)
  next
    case False
    show ?thesis
    proof (cases "\<exists>e. h = ReactorFailed e")
      case True
      with False Cons.prems show ?thesis by (auto simp: tracks_refl)
    next
      case no: False
      with False Cons.prems have "io_run enq hs (happen enq h d) = Some (ec, d')"
        by (cases h) simp_all
      then have "tracks (happen enq h d) d'" by (rule Cons.IH)
      with tracks_happen show ?thesis by (rule tracks_trans)
    qed
  qed
qed

lemma tracks_io_reset: "tracks d (io_reset d)"
  by (rule tracks_quiet [where evs = "[IoReset]"]) (simp_all add: io_reset_def emit_def)

lemma tracks_triggerReadSome: "tracks d (triggerReadSome d)"
  by (simp add: triggerReadSome_def tracks_emit)

text \<open>
  Every return of \<^verbatim>\<open>run\<close> is a terminal dispatch after steps that notify on change
  and end with the link status set from the socket.
\<close>

lemma run_shape:
  assumes "run enq sched d = Some d'"
  obtains d10 where "tracks d d10" "d' = emit [StateDispatch (state d10)] d10"
    "driver_state (state d10) = socket_status d10"
proof (cases "socket_is_open d")
  case False
  let ?d2 = "emit [Lock state_mutex, Unlock state_mutex] (setDriverState closed d)"
  from False assms have d': "d' = emit [StateDispatch (state ?d2)] ?d2"
    by (auto simp: run_def socket_status_def getState_eq Let_def)
  have "tracks d (setDriverState closed d)" by (rule tracks_setDriverState)
  moreover have "tracks (setDriverState closed d) ?d2" by (simp add: tracks_emit)
  ultimately have t: "tracks d ?d2" by (rule tracks_trans)
  have "driver_state (state ?d2) = socket_status ?d2"
    using False by (simp add: socket_status_def)
  with t d' show thesis by (rule that)
next
  case True
  define d2 where "d2 = emit [Lock state_mutex, Unlock state_mutex] (setDriverState opened d)"
  define d7 where "d7 = triggerReadSome (emit [IoThread] (setDriverState ready (emit [IoWork] (io_reset d2))))"
  from True assms obtain ec d8 where io: "io_run enq sched d7 = Some (ec, d8)"
    and d': "d' = (let d9 = setErrorCode ec d8; d10 = setDriverState (socket_status d9) d9
                   in emit [StateDispatch (state d10)] d10)"
    by (auto simp: run_def socket_status_def getState_eq d2_def d7_def Let_def split: option.splits)
  define d10 where "d10 = setDriverState (socket_status (setErrorCode ec d8)) (setErrorCode ec d8)"
  have "tracks d (setDriverState opened d)" by (rule tracks_setDriverState)
  also have "tracks (setDriverState opened d) d2" by (simp add: d2_def tracks_emit)
  also have "tracks d2 (io_reset d2)" by (rule tracks_io_reset)
  also have "tracks (io_reset d2) (emit [IoWork] (io_reset d2))" by (simp add: tracks_emit)
  also have "tracks (emit [IoWork] (io_reset d2)) (setDriverState ready (emit [IoWork] (io_reset d2)))"
    by (rule tracks_setDriverState)
  also have "tracks (setDriverState ready (emit [IoWork] (io_reset d2)))
      (emit [IoThread] (setDriverState ready (emit [IoWork] (io_reset d2))))"
    by (simp add: tracks_emit)
  also have "tracks (emit [IoThread] (setDriverState ready (emit [IoWork] (io_reset d2)))) d7"
    by (simp add: d7_def tracks_triggerReadSome)
  also from io have "tracks d7 d8" by (rule tracks_io_run)
  also have "tracks d8 (setErrorCode ec d8)" by (rule tracks_setErrorCode)
  also have "tracks (setErrorCode ec d8) d10" unfolding d10_def by (rule tracks_setDriverState)
  finally have t: "tracks d d10" .
  have e: "d' = emit [StateDispatch (state d10)] d10"
    using d' by (simp add: d10_def Let_def)
  have "driver_state (state d10) = socket_status d10"
    by (simp add: d10_def socket_status_def)
  with t e show thesis by (rule that)
qed

lemma io_run_shutdown: "ShutdownCalled \<in> set hs \<Longrightarrow> io_run enq hs d \<noteq> None"
proof (induction hs arbitrary: d)
  case Nil
  then show ?case by simp
next
  case (Cons h hs)
  show ?case
  proof (cases "h = ShutdownCalled")
    case True
    have "io_stopped (shutdown d)" by (simp add: shutdown_effect)
    then have "io_run enq hs (shutdown d) \<noteq> None" by (cases hs) simp_all
    with True show ?thesis by simp
  next
    case False
    with Cons.prems have "ShutdownCalled \<in> set hs" by simp
    then have "io_run enq hs (happen enq h d) \<noteq> None" by (rule Cons.IH)
    then show ?thesis by (cases h) simp_all
  qed
qed

lemma run_returns:
  "\<not> socket_is_open d \<or> ShutdownCalled \<in> set sched \<Longrightarrow> run enq sched d \<noteq> None"
  by (auto simp: run_def getState_eq socket_status_def Let_def io_run_shutdown split: option.splits)

text \<open>
  C2. When \<^verbatim>\<open>run\<close> returns, the last thing it did was to hand the final state to the
  state observers. Every state handed out before that differs from the state stored
  just before it (notification on change), and the final state is the last of them, or
  the state \<^verbatim>\<open>run\<close> started in when there was none: so the terminal dispatch is one
  more dispatch, made although the value did not change.
\<close>
theorem run_terminal_dispatch:
  assumes "run enq sched d = Some d'"
  shows "\<exists>evs. trace d' = trace d @ evs @ [StateDispatch (state d')] \<and>
           distinct_adj (state d # dispatched evs) \<and>
           state d' = last (state d # dispatched evs)"
proof -
  from assms obtain d10 where t: "tracks d d10" and d': "d' = emit [StateDispatch (state d10)] d10"
    by (rule run_shape)
  from t obtain evs where "trace d10 = trace d @ evs" "distinct_adj (state d # dispatched evs)"
    "state d10 = last (state d # dispatched evs)"
    by (rule tracksE)
  with d' show ?thesis by (auto simp: emit_def)
qed

theorem run_terminal_dispatch_witness:
  "\<exists>d'. run (\<lambda>m. True) [ShutdownCalled] open_driver = Some d' \<and>
     dispatched (emitted open_driver d') =
       [state_in opened, state_in ready, state_in closed, state_in closed] \<and>
     (\<exists>evs. trace d' = trace open_driver @ evs @ [StateDispatch (state d')] \<and>
        distinct_adj (state open_driver # dispatched evs) \<and>
        state d' = last (state open_driver # dispatched evs))"
proof -
  have "\<exists>d'. run (\<lambda>m. True) [ShutdownCalled] open_driver = Some d' \<and>
     dispatched (emitted open_driver d') =
       [state_in opened, state_in ready, state_in closed, state_in closed]"
    by (simp add: run_def getState_eq setDriverState_effect setErrorCode_effect io_reset_def
        triggerReadSome_def shutdown_effect send_effect emit_def emitted_def open_driver_def
        AsioDriver_new_def State_init_def state_in_def socket_status_def success_def Let_def)
  then obtain d' where r: "run (\<lambda>m. True) [ShutdownCalled] open_driver = Some d'"
    and l: "dispatched (emitted open_driver d') =
       [state_in opened, state_in ready, state_in closed, state_in closed]"
    by blast
  from r l run_terminal_dispatch [OF r] show ?thesis by blast
qed

text \<open>
  C8. When \<^verbatim>\<open>run\<close> returns, the stored link status is the status of the socket at
  that moment: open for an open socket, closed for a closed one, whether the reactor
  loop ran or the socket was closed at entry.
\<close>
theorem run_final_status:
  assumes "run enq sched d = Some d'"
  shows "driver_state (state d') = (if socket_is_open d' then opened else closed)"
proof -
  from assms obtain d10 where "d' = emit [StateDispatch (state d10)] d10"
    "driver_state (state d10) = socket_status d10"
    by (rule run_shape)
  then show ?thesis by (simp add: socket_status_def)
qed

theorem run_final_status_witness:
  "\<exists>d'. run (\<lambda>m. True) [ShutdownCalled] open_driver = Some d' \<and>
     \<not> socket_is_open d' \<and>
     driver_state (state d') = (if socket_is_open d' then opened else closed)"
proof -
  have "\<exists>d'. run (\<lambda>m. True) [ShutdownCalled] open_driver = Some d' \<and> \<not> socket_is_open d'"
    by (simp add: run_def getState_eq setDriverState_effect setErrorCode_effect io_reset_def
        triggerReadSome_def shutdown_effect send_effect emit_def emitted_def open_driver_def
        AsioDriver_new_def State_init_def state_in_def socket_status_def success_def Let_def)
  then obtain d' where r: "run (\<lambda>m. True) [ShutdownCalled] open_driver = Some d'"
    and c: "\<not> socket_is_open d'"
    by blast
  from r c run_final_status [OF r] show ?thesis by blast
qed

subsection \<open>Waiting for a state\<close>

lemma stored_Nil [simp]: "stored [] w = w"
  by (simp add: stored_def)

lemma stored_Cons [simp]: "stored (wk # wks) w = stored wks (deliver wk w)"
  by (simp add: stored_def)

lemma wait_loop_reached:
  "wait_loop s a wks w = Some b \<Longrightarrow>
   b = (\<exists>pre post. wks = pre @ post \<and> (\<forall>wk\<in>set pre. woke_at wk < a) \<and>
          driver_state (waiter_state (stored pre w)) = s)"
proof (induction wks arbitrary: w)
  case Nil
  then show ?case by (auto split: if_splits)
next
  case (Cons wk wks)
  show ?case
  proof (cases "s = driver_state (waiter_state w)")
    case True
    with Cons.prems have "b" by simp
    moreover have "wk # wks = [] @ (wk # wks) \<and> (\<forall>x\<in>set []. woke_at x < a) \<and>
        driver_state (waiter_state (stored [] w)) = s"
      using True by simp
    ultimately show ?thesis by blast
  next
    case unreached: False
    show ?thesis
    proof (cases "woke_at wk < a")
      case False
      with unreached Cons.prems have "\<not> b" by (simp add: timed_wait_def)
      moreover have "\<not> (\<exists>pre post. wk # wks = pre @ post \<and> (\<forall>x\<in>set pre. woke_at x < a) \<and>
          driver_state (waiter_state (stored pre w)) = s)"
      proof
        assume "\<exists>pre post. wk # wks = pre @ post \<and> (\<forall>x\<in>set pre. woke_at x < a) \<and>
          driver_state (waiter_state (stored pre w)) = s"
        then obtain pre post where p: "wk # wks = pre @ post" "\<forall>x\<in>set pre. woke_at x < a"
          "driver_state (waiter_state (stored pre w)) = s" by blast
        show False
        proof (cases pre)
          case Nil
          with p(3) unreached show False by simp
        next
          case (Cons x xs)
          with p(1) have "x = wk" by simp
          with Cons p(2) False show False by simp
        qed
      qed
      ultimately show ?thesis by blast
    next
      case True
      with unreached Cons.prems have "wait_loop s a wks (deliver wk w) = Some b"
        by (simp add: timed_wait_def)
      then have b: "b = (\<exists>pre post. wks = pre @ post \<and> (\<forall>x\<in>set pre. woke_at x < a) \<and>
          driver_state (waiter_state (stored pre (deliver wk w))) = s)"
        by (rule Cons.IH)
      show ?thesis
      proof (cases b)
        case True
        with b obtain pre post where "wks = pre @ post" "\<forall>x\<in>set pre. woke_at x < a"
          "driver_state (waiter_state (stored pre (deliver wk w))) = s" by blast
        with \<open>woke_at wk < a\<close> have "wk # wks = (wk # pre) @ post \<and>
          (\<forall>x\<in>set (wk # pre). woke_at x < a) \<and>
          driver_state (waiter_state (stored (wk # pre) w)) = s" by simp
        with True show ?thesis by blast
      next
        case False
        have "\<not> (\<exists>pre post. wk # wks = pre @ post \<and> (\<forall>x\<in>set pre. woke_at x < a) \<and>
          driver_state (waiter_state (stored pre w)) = s)"
        proof
          assume "\<exists>pre post. wk # wks = pre @ post \<and> (\<forall>x\<in>set pre. woke_at x < a) \<and>
            driver_state (waiter_state (stored pre w)) = s"
          then obtain pre post where p: "wk # wks = pre @ post" "\<forall>x\<in>set pre. woke_at x < a"
            "driver_state (waiter_state (stored pre w)) = s" by blast
          show False
          proof (cases pre)
            case Nil
            with p(3) unreached show False by simp
          next
            case (Cons x xs)
            with p have "wks = xs @ post" "\<forall>x\<in>set xs. woke_at x < a"
              "driver_state (waiter_state (stored xs (deliver wk w))) = s" by auto
            with b False show False by blast
          qed
        qed
        with False show ?thesis by blast
      qed
    qed
  qed
qed


lemma wait_loop_deadline:
  "\<exists>wk\<in>set wks. a \<le> woke_at wk \<Longrightarrow> wait_loop s a wks w \<noteq> None"
proof (induction wks arbitrary: w)
  case Nil
  then show ?case by simp
next
  case (Cons wk wks)
  then show ?case by (cases "woke_at wk < a") (auto simp: timed_wait_def)
qed




subsection \<open>The thread is run\<close>

lemma run_step_Returned: "pc th = Returned \<Longrightarrow> run_step enq (th, d) = (th, d)"
  by (simp add: run_step_def)

lemma steps_Returned: "pc th = Returned \<Longrightarrow> (run_step enq ^^ n) (th, d) = (th, d)"
  by (induction n) (simp_all add: run_step_Returned)

lemma steps_add: "(run_step enq ^^ (m + n)) x = (run_step enq ^^ n) ((run_step enq ^^ m) x)"
  by (simp add: add.commute [of m n] funpow_add)

lemma loop_steps:
  "io_run enq hs d = Some (ec, d') \<Longrightarrow>
   \<exists>n hs'. (run_step enq ^^ n) (\<lparr>pc = InLoop, pending = hs\<rparr>, d) =
     (\<lparr>pc = AtSetErrorCode ec, pending = hs'\<rparr>, d')"
proof (induction hs arbitrary: d)
  case Nil
  then have "(run_step enq ^^ 1) (\<lparr>pc = InLoop, pending = []\<rparr>, d) =
     (\<lparr>pc = AtSetErrorCode ec, pending = []\<rparr>, d')"
    by (auto simp: run_step_def split: if_splits)
  then show ?case by blast
next
  case (Cons h hs)
  show ?case
  proof (cases "io_stopped d \<or> (\<exists>e. h = ReactorFailed e)")
    case True
    with Cons.prems have "\<exists>hs'. (run_step enq ^^ 1) (\<lparr>pc = InLoop, pending = h # hs\<rparr>, d) =
       (\<lparr>pc = AtSetErrorCode ec, pending = hs'\<rparr>, d')"
      by (auto simp: run_step_def split: if_splits)
    then show ?thesis by blast
  next
    case False
    with Cons.prems have io: "io_run enq hs (happen enq h d) = Some (ec, d')"
      by (cases h) simp_all
    from False have one: "run_step enq (\<lparr>pc = InLoop, pending = h # hs\<rparr>, d) =
       (\<lparr>pc = InLoop, pending = hs\<rparr>, happen enq h d)"
      by (cases h) (simp_all add: run_step_def)
    from Cons.IH [OF io] obtain n hs' where
      "(run_step enq ^^ n) (\<lparr>pc = InLoop, pending = hs\<rparr>, happen enq h d) =
         (\<lparr>pc = AtSetErrorCode ec, pending = hs'\<rparr>, d')"
      by blast
    with one have "(run_step enq ^^ (1 + n)) (\<lparr>pc = InLoop, pending = h # hs\<rparr>, d) =
         (\<lparr>pc = AtSetErrorCode ec, pending = hs'\<rparr>, d')"
      unfolding steps_add by simp
    then show ?thesis by blast
  qed
qed

lemma run_thread_completes:
  assumes "run enq sched d = Some d'"
  shows "\<exists>n th. (run_step enq ^^ n) (run_thread_new sched, d) = (th, d') \<and> pc th = Returned"
proof (cases "socket_is_open d")
  case False
  with assms have "(run_step enq ^^ 3) (run_thread_new sched, d) =
      (\<lparr>pc = Returned, pending = sched\<rparr>, d')"
    by (auto simp: run_def run_thread_new_def run_step_def numeral_3_eq_3 socket_status_def
        getState_eq Let_def)
  then show ?thesis by force
next
  case True
  define d7 where "d7 = triggerReadSome (emit [IoThread] (setDriverState ready
      (emit [IoWork] (io_reset (emit [Lock state_mutex, Unlock state_mutex]
        (setDriverState opened d))))))"
  from True assms obtain ec d8 where io: "io_run enq sched d7 = Some (ec, d8)"
    and d': "d' = (let d9 = setErrorCode ec d8; d10 = setDriverState (socket_status d9) d9
                   in emit [StateDispatch (state d10)] d10)"
    by (auto simp: run_def socket_status_def getState_eq d7_def Let_def split: option.splits)
  from True have pre: "(run_step enq ^^ 7) (run_thread_new sched, d) =
      (\<lparr>pc = InLoop, pending = sched\<rparr>, d7)"
    by (simp add: run_thread_new_def run_step_def eval_nat_numeral socket_status_def
        getState_eq d7_def)
  from loop_steps [OF io] obtain n hs' where
    loop: "(run_step enq ^^ n) (\<lparr>pc = InLoop, pending = sched\<rparr>, d7) =
       (\<lparr>pc = AtSetErrorCode ec, pending = hs'\<rparr>, d8)"
    by blast
  have post: "(run_step enq ^^ 3) (\<lparr>pc = AtSetErrorCode ec, pending = hs'\<rparr>, d8) =
      (\<lparr>pc = Returned, pending = hs'\<rparr>, d')"
    by (simp add: run_step_def eval_nat_numeral d' Let_def)
  have "(run_step enq ^^ (7 + n + 3)) (run_thread_new sched, d) =
      (\<lparr>pc = Returned, pending = hs'\<rparr>, d')"
    unfolding steps_add pre loop post ..
  then show ?thesis by force
qed


lemma loop_blocked:
  "io_run enq hs d = None \<Longrightarrow>
   pc (fst ((run_step enq ^^ n) (\<lparr>pc = InLoop, pending = hs\<rparr>, d))) = InLoop"
proof (induction hs arbitrary: d n)
  case Nil
  then have "run_step enq (\<lparr>pc = InLoop, pending = []\<rparr>, d) = (\<lparr>pc = InLoop, pending = []\<rparr>, d)"
    by (auto simp: run_step_def split: if_splits)
  then have "(run_step enq ^^ n) (\<lparr>pc = InLoop, pending = []\<rparr>, d) =
      (\<lparr>pc = InLoop, pending = []\<rparr>, d)"
    by (induction n) simp_all
  then show ?case by simp
next
  case (Cons h hs)
  from Cons.prems have open_loop: "\<not> io_stopped d" "\<not> (\<exists>e. h = ReactorFailed e)"
    by (auto split: if_splits happening.splits)
  with Cons.prems have io: "io_run enq hs (happen enq h d) = None"
    by (cases h) simp_all
  from open_loop have one: "run_step enq (\<lparr>pc = InLoop, pending = h # hs\<rparr>, d) =
      (\<lparr>pc = InLoop, pending = hs\<rparr>, happen enq h d)"
    by (cases h) (simp_all add: run_step_def)
  show ?case
  proof (cases n)
    case 0
    then show ?thesis by simp
  next
    case (Suc m)
    then have "(run_step enq ^^ n) (\<lparr>pc = InLoop, pending = h # hs\<rparr>, d) =
        (run_step enq ^^ m) (\<lparr>pc = InLoop, pending = hs\<rparr>, happen enq h d)"
      using one by (simp add: funpow_swap1)
    with Cons.IH [OF io, of m] show ?thesis by simp
  qed
qed

lemma run_thread_sound:
  assumes "(run_step enq ^^ n) (run_thread_new sched, d) = (th, d')" "pc th = Returned"
  shows "run enq sched d = Some d'"
proof (cases "run enq sched d")
  case (Some d'')
  then obtain m th'' where m: "(run_step enq ^^ m) (run_thread_new sched, d) = (th'', d'')"
    "pc th'' = Returned"
    using run_thread_completes by blast
  have "(run_step enq ^^ (n + m)) (run_thread_new sched, d) = (th, d')"
    unfolding steps_add assms(1) using assms(2) by (rule steps_Returned)
  moreover have "(run_step enq ^^ (m + n)) (run_thread_new sched, d) = (th'', d'')"
    unfolding steps_add m(1) using m(2) by (rule steps_Returned)
  ultimately have "d' = d''" by (simp add: add.commute)
  with Some show ?thesis by simp
next
  case None
  define d7 where "d7 = triggerReadSome (emit [IoThread] (setDriverState ready
      (emit [IoWork] (io_reset (emit [Lock state_mutex, Unlock state_mutex]
        (setDriverState opened d))))))"
  from None have opn: "socket_is_open d" and io: "io_run enq sched d7 = None"
    by (auto simp: run_def socket_status_def getState_eq d7_def Let_def
        split: option.splits if_splits)
  from opn have pre: "(run_step enq ^^ 7) (run_thread_new sched, d) =
      (\<lparr>pc = InLoop, pending = sched\<rparr>, d7)"
    by (simp add: run_thread_new_def run_step_def eval_nat_numeral socket_status_def
        getState_eq d7_def)
  have "pc (fst ((run_step enq ^^ (7 + n)) (run_thread_new sched, d))) = InLoop"
    unfolding steps_add pre using io by (rule loop_blocked)
  moreover have "(run_step enq ^^ (n + 7)) (run_thread_new sched, d) = (th, d')"
    unfolding steps_add assms(1) using assms(2) by (rule steps_Returned)
  ultimately show ?thesis using assms(2) by (simp add: add.commute)
qed


subsection \<open>What the thread adds to the trace\<close>

lemma happen_adds:
  "\<exists>evs. trace (happen enq h d) = trace d @ evs \<and> CreateStateListener \<notin> set evs"
  by (cases h)
     (simp_all add: frameReceived_effect setErrorCode_effect setInternalError_effect
        setDriverState_effect shutdown_effect send_effect emit_def)

lemma run_step_adds:
  "\<exists>evs. trace (snd (run_step enq (th, d))) = trace d @ evs \<and> CreateStateListener \<notin> set evs"
proof (cases "pc th")
  case InLoop
  show ?thesis
  proof (cases "io_stopped d")
    case True
    with InLoop show ?thesis by (simp add: run_step_def)
  next
    case False
    show ?thesis
    proof (cases "pending th")
      case Nil
      with InLoop False show ?thesis by (simp add: run_step_def)
    next
      case (Cons h hs)
      with InLoop False happen_adds [of enq h d] show ?thesis
        by (cases h) (simp_all add: run_step_def)
    qed
  qed
qed (simp_all add: run_step_def setDriverState_effect setErrorCode_effect getState_eq
       io_reset_def triggerReadSome_def emit_def)

lemma steps_adds:
  "\<exists>evs. trace (snd ((run_step enq ^^ n) (th, d))) = trace d @ evs \<and>
     CreateStateListener \<notin> set evs"
proof (induction n)
  case 0
  then show ?case by simp
next
  case (Suc n)
  obtain th' d' where s: "(run_step enq ^^ n) (th, d) = (th', d')"
    by (cases "(run_step enq ^^ n) (th, d)")
  with Suc obtain e1 where 1: "trace d' = trace d @ e1" "CreateStateListener \<notin> set e1"
    by auto
  from run_step_adds [of enq th' d'] obtain e2 where
    2: "trace (snd (run_step enq (th', d'))) = trace d' @ e2" "CreateStateListener \<notin> set e2"
    by blast
  from s 1 2 have "trace (snd ((run_step enq ^^ Suc n) (th, d))) = trace d @ (e1 @ e2) \<and>
     CreateStateListener \<notin> set (e1 @ e2)"
    by simp
  then show ?case by blast
qed

lemma advance_adds:
  "\<exists>evs. trace (wrapped (advance enq n t)) = trace (wrapped t) @ evs \<and>
     CreateStateListener \<notin> set evs"
proof (cases "thread t")
  case None
  then show ?thesis by (simp add: advance_def)
next
  case (Some th)
  with steps_adds [where enq = enq and n = n and th = th and d = "wrapped t"] show ?thesis
    by (auto simp: advance_def split: prod.splits)
qed

lemma advance_add: "advance enq (m + n) t = advance enq n (advance enq m t)"
  by (cases "thread t") (simp_all add: advance_def steps_add split: prod.splits)

lemma advance_0 [simp]: "advance enq 0 t = t"
  by (cases "thread t") (simp_all add: advance_def)

lemma thread_advance [simp]: "thread (advance enq n t) = None \<longleftrightarrow> thread t = None"
  by (cases "thread t") (simp_all add: advance_def split: prod.splits)

lemma advance_no_thread: "thread t = None \<Longrightarrow> advance enq n t = t"
  by (simp add: advance_def)

subsection \<open>What the listener hears\<close>

lemma after_listener_None: "after_listener es = None \<longleftrightarrow> CreateStateListener \<notin> set es"
  by (induction es) (auto split: option.splits)

lemma after_listener_append:
  "CreateStateListener \<notin> set ys \<Longrightarrow>
   after_listener (xs @ ys) = map_option (\<lambda>later. later @ ys) (after_listener xs)"
proof (induction xs)
  case Nil
  then show ?case by (simp add: after_listener_None)
next
  case (Cons x xs)
  then show ?case by (cases "after_listener xs") simp_all
qed

lemma heard_append:
  "CreateStateListener \<notin> set ys \<Longrightarrow>
   heard (xs @ ys) = (if CreateStateListener \<in> set xs then heard xs @ dispatched ys else [])"
proof (cases "after_listener xs")
  case None
  moreover from None have "CreateStateListener \<notin> set xs" by (simp add: after_listener_None)
  moreover assume "CreateStateListener \<notin> set ys"
  ultimately show ?thesis by (simp add: heard_def after_listener_append)
next
  case (Some later)
  moreover from Some have "CreateStateListener \<in> set xs"
    using after_listener_None [of xs] by auto
  moreover assume "CreateStateListener \<notin> set ys"
  ultimately show ?thesis by (simp add: heard_def after_listener_append dispatched_append)
qed

lemma heard_registered [simp]: "heard (xs @ [CreateStateListener]) = []"
proof -
  have "after_listener (xs @ [CreateStateListener]) = Some []"
    by (induction xs) simp_all
  then show ?thesis by (simp add: heard_def)
qed

lemma listen_same [simp]: "listen d d = []"
  by (simp add: listen_def)

lemma listen_advance:
  assumes "CreateStateListener \<in> set (trace (wrapped t))"
  shows "heard (trace (wrapped (advance enq n t))) =
     heard (trace (wrapped t)) @ listen (wrapped t) (wrapped (advance enq n t))"
proof -
  from advance_adds [of enq n t] obtain evs where
    "trace (wrapped (advance enq n t)) = trace (wrapped t) @ evs" "CreateStateListener \<notin> set evs"
    by blast
  with assms show ?thesis by (simp add: listen_def heard_append)
qed

lemma registered_advance:
  "CreateStateListener \<in> set (trace (wrapped t)) \<Longrightarrow>
   CreateStateListener \<in> set (trace (wrapped (advance enq n t)))"
  using advance_adds [of enq n t] by auto


lemma waiter_state_updates:
  "waiter_state (foldl (\<lambda>w st. updateState st w) w sts) = last (waiter_state w # sts)"
  by (induction sts arbitrary: w) (simp_all add: updateState_def)

lemma waiter_state_deliver: "waiter_state (deliver wk w) = last (waiter_state w # delivered wk)"
  by (simp add: deliver_def waiter_state_updates)

lemma last_last: "last (last (a # xs) # ys) = last (a # xs @ ys)"
  by (cases ys) simp_all

lemma listen_twice:
  assumes "CreateStateListener \<in> set (trace (wrapped t))"
  shows "listen (wrapped t) (wrapped (advance enq (m + n) t)) =
     listen (wrapped t) (wrapped (advance enq m t)) @
     listen (wrapped (advance enq m t)) (wrapped (advance enq (m + n) t))"
proof -
  let ?t1 = "advance enq m t" and ?t2 = "advance enq (m + n) t"
  have 1: "heard (trace (wrapped ?t1)) = heard (trace (wrapped t)) @ listen (wrapped t) (wrapped ?t1)"
    using assms by (rule listen_advance)
  have "heard (trace (wrapped (advance enq n ?t1))) =
      heard (trace (wrapped ?t1)) @ listen (wrapped ?t1) (wrapped (advance enq n ?t1))"
    using registered_advance [OF assms] by (rule listen_advance)
  then have 2: "heard (trace (wrapped ?t2)) =
      heard (trace (wrapped ?t1)) @ listen (wrapped ?t1) (wrapped ?t2)"
    by (simp add: advance_add)
  have 3: "heard (trace (wrapped ?t2)) = heard (trace (wrapped t)) @ listen (wrapped t) (wrapped ?t2)"
    using assms by (rule listen_advance)
  from 1 2 3 show ?thesis by simp
qed

lemma hear_stored:
  "CreateStateListener \<in> set (trace (wrapped t)) \<Longrightarrow>
   waiter_state (stored (hear enq ws t) w) =
     last (waiter_state w # listen (wrapped t) (wrapped (advance enq (sum_list (map fst ws)) t)))"
proof (induction ws arbitrary: t w)
  case Nil
  then show ?case by simp
next
  case (Cons x ws)
  obtain n at where x: "x = (n, at)" by (cases x)
  let ?t1 = "advance enq n t"
  let ?wk = "\<lparr>delivered = listen (wrapped t) (wrapped ?t1), woke_at = at\<rparr>"
  from Cons.prems have reg: "CreateStateListener \<in> set (trace (wrapped ?t1))"
    by (rule registered_advance)
  have "waiter_state (stored (hear enq (x # ws) t) w) =
      waiter_state (stored (hear enq ws ?t1) (deliver ?wk w))"
    by (simp add: x)
  also have "\<dots> = last (waiter_state (deliver ?wk w) #
      listen (wrapped ?t1) (wrapped (advance enq (sum_list (map fst ws)) ?t1)))"
    using reg by (rule Cons.IH)
  also have "\<dots> = last (waiter_state w # listen (wrapped t) (wrapped ?t1) @
      listen (wrapped ?t1) (wrapped (advance enq (n + sum_list (map fst ws)) t)))"
    by (simp add: waiter_state_deliver last_last advance_add)
  also have "\<dots> = last (waiter_state w #
      listen (wrapped t) (wrapped (advance enq (n + sum_list (map fst ws)) t)))"
    using listen_twice [OF Cons.prems, of enq n "sum_list (map fst ws)"] by simp
  finally show ?case by (simp add: x)
qed

lemma take_hear: "take k (hear enq ws t) = hear enq (take k ws) t"
proof (induction ws arbitrary: k t)
  case Nil
  then show ?case by simp
next
  case (Cons x ws)
  then show ?case by (cases x; cases k) simp_all
qed

lemma length_hear [simp]: "length (hear enq ws t) = length ws"
  by (induction ws arbitrary: t) auto

lemma woke_at_hear:
  "(\<forall>wk\<in>set (hear enq ws t). woke_at wk < a) \<longleftrightarrow> (\<forall>x\<in>set ws. snd x < a)"
proof (induction ws arbitrary: t)
  case Nil
  then show ?case by simp
next
  case (Cons x ws)
  obtain n at where "x = (n, at)" by (cases x)
  with Cons [of "advance enq n t"] show ?case by simp
qed

text \<open>
  What the waiter holds after \<open>k\<close> wake-ups: the last state dispatched since its listener
  was registered, or its snapshot when there was none.
\<close>

lemma wait_heard:
  assumes reg: "CreateStateListener \<in> set (trace (wrapped t))"
    and w: "wait s duration now (hear enq ws t) w = Some b"
  shows "b = (\<exists>k\<le>length ws. (\<forall>x\<in>set (take k ws). snd x < now + duration) \<and>
            driver_state (last (waiter_state w #
              listen (wrapped t) (wrapped (advance enq (sum_list (map fst (take k ws))) t)))) = s)"
    (is "b = ?R")
proof -
  from w have b: "b = (\<exists>pre post. hear enq ws t = pre @ post \<and>
      (\<forall>wk\<in>set pre. woke_at wk < now + duration) \<and>
      driver_state (waiter_state (stored pre w)) = s)" (is "b = ?L")
    unfolding wait_def Let_def by (rule wait_loop_reached)
  have "?L \<longleftrightarrow> ?R"
  proof
    assume ?L
    then obtain pre post where p: "hear enq ws t = pre @ post"
      "\<forall>wk\<in>set pre. woke_at wk < now + duration"
      "driver_state (waiter_state (stored pre w)) = s"
      by blast
    define k where "k = length pre"
    from p(1) have pre: "pre = hear enq (take k ws) t"
      unfolding k_def by (metis append_eq_conv_conj take_hear)
    from p(1) have "k \<le> length ws"
      unfolding k_def by (metis length_hear le_add1 length_append)
    moreover from p(2) have "\<forall>x\<in>set (take k ws). snd x < now + duration"
      unfolding pre woke_at_hear .
    moreover from p(3) have "driver_state (last (waiter_state w #
        listen (wrapped t) (wrapped (advance enq (sum_list (map fst (take k ws))) t)))) = s"
      unfolding pre hear_stored [OF reg] .
    ultimately show ?R by blast
  next
    assume ?R
    then obtain k where k: "k \<le> length ws" "\<forall>x\<in>set (take k ws). snd x < now + duration"
      "driver_state (last (waiter_state w #
        listen (wrapped t) (wrapped (advance enq (sum_list (map fst (take k ws))) t)))) = s"
      by blast
    have "hear enq ws t = hear enq (take k ws) t @ drop k (hear enq ws t)"
      by (metis append_take_drop_id take_hear)
    moreover from k(2) have "\<forall>wk\<in>set (hear enq (take k ws) t). woke_at wk < now + duration"
      unfolding woke_at_hear .
    moreover from k(3) have "driver_state (waiter_state (stored (hear enq (take k ws) t) w)) = s"
      unfolding hear_stored [OF reg] .
    ultimately show ?L by blast
  qed
  with b show ?thesis by simp
qed


lemma waiting_registered:
  "CreateStateListener \<in> set (trace (wrapped (snd (waiting enq il t))))"
proof -
  define t1 where "t1 = advance enq (before_listener il)
      ((advance enq (before_snapshot il) t)\<lparr>wrapped :=
         emit [Lock state_mutex, Unlock state_mutex]
           (wrapped (advance enq (before_snapshot il) t))\<rparr>)"
  have "CreateStateListener \<in> set (trace (wrapped (t1\<lparr>wrapped := emit [CreateStateListener] (wrapped t1)\<rparr>)))"
    by (simp add: emit_def)
  then have "CreateStateListener \<in> set (trace (wrapped (advance enq (before_wait il)
      (t1\<lparr>wrapped := emit [CreateStateListener] (wrapped t1)\<rparr>))))"
    by (rule registered_advance)
  then show ?thesis
    by (simp add: waiting_def StateWaiter_new_def getState_eq t1_def Let_def)
qed

lemma waiting_holds:
  "waiter_state (fst (waiting enq il t)) =
     last (state (wrapped (advance enq (before_snapshot il) t)) #
           heard (trace (wrapped (snd (waiting enq il t)))))"
proof -
  define t1 where "t1 = advance enq (before_listener il)
      ((advance enq (before_snapshot il) t)\<lparr>wrapped :=
         emit [Lock state_mutex, Unlock state_mutex]
           (wrapped (advance enq (before_snapshot il) t))\<rparr>)"
  define t1' where "t1' = t1\<lparr>wrapped := emit [CreateStateListener] (wrapped t1)\<rparr>"
  have reg: "CreateStateListener \<in> set (trace (wrapped t1'))" and none: "heard (trace (wrapped t1')) = []"
    by (simp_all add: t1'_def emit_def)
  from listen_advance [OF reg, of enq "before_wait il"] none
  have "listen (wrapped t1') (wrapped (advance enq (before_wait il) t1')) =
      heard (trace (wrapped (advance enq (before_wait il) t1')))"
    by simp
  then show ?thesis
    by (simp add: waiting_def StateWaiter_new_def getState_eq t1_def t1'_def Let_def
        waiter_state_updates)
qed

lemma waiting_thread [simp]: "thread (snd (waiting enq il t)) = None \<longleftrightarrow> thread t = None"
  by (simp add: waiting_def StateWaiter_new_def getState_eq Let_def)

lemma deadline_hear:
  "(\<exists>wk\<in>set (hear enq ws t). a \<le> woke_at wk) \<longleftrightarrow> (\<exists>x\<in>set ws. a \<le> snd x)"
  using woke_at_hear [of enq ws t a] by (auto simp: not_less [symmetric])

text \<open>
  What \<^verbatim>\<open>wait_for\<close> answers, in terms of the driver: true exactly when, after some
  number of wake-ups that all came before the deadline, the last state the driver has
  dispatched since the listener was registered is the target, or the snapshot is the
  target and nothing was dispatched since.
\<close>

lemma wait_for_heard:
  assumes "fst (wait_for enq s t duration il now) = Some b"
  shows "b = (\<exists>k\<le>length (wakeups il).
            (\<forall>x\<in>set (take k (wakeups il)). snd x < now + duration) \<and>
            driver_state (last (state (wrapped (advance enq (before_snapshot il) t)) #
              heard (trace (wrapped (advance enq (sum_list (map fst (take k (wakeups il))))
                (snd (waiting enq il t))))))) = s)"
proof -
  obtain w t2 where wt: "waiting enq il t = (w, t2)" by (cases "waiting enq il t")
  from waiting_registered [of enq il t] wt
  have reg: "CreateStateListener \<in> set (trace (wrapped t2))" by simp
  from waiting_holds [of enq il t] wt
  have w: "waiter_state w = last (state (wrapped (advance enq (before_snapshot il) t)) #
      heard (trace (wrapped t2)))" by simp
  have holds: "last (waiter_state w # listen (wrapped t2) (wrapped (advance enq n t2))) =
      last (state (wrapped (advance enq (before_snapshot il) t)) #
        heard (trace (wrapped (advance enq n t2))))" for n
    unfolding w last_last listen_advance [OF reg, of enq n] by simp
  from assms wt have "wait s duration now (hear enq (wakeups il) t2) w = Some b"
    by (simp add: wait_for_def Let_def)
  from wait_heard [OF reg this] show ?thesis
    unfolding holds wt by simp
qed

lemma wait_for_returns:
  assumes "\<exists>x\<in>set (wakeups il). now + duration \<le> snd x"
  shows "fst (wait_for enq s t duration il now) \<noteq> None"
proof -
  obtain w t2 where wt: "waiting enq il t = (w, t2)" by (cases "waiting enq il t")
  from assms have "\<exists>wk\<in>set (hear enq (wakeups il) t2). now + duration \<le> woke_at wk"
    by (simp add: deadline_hear)
  then have "wait_loop s (now + duration) (hear enq (wakeups il) t2) w \<noteq> None"
    by (rule wait_loop_deadline)
  with wt show ?thesis by (simp add: wait_for_def wait_def Let_def)
qed

lemma wait_for_thread [simp]:
  "thread (snd (wait_for enq s t duration il now)) = None \<longleftrightarrow> thread t = None"
proof -
  obtain w t2 where wt: "waiting enq il t = (w, t2)" by (cases "waiting enq il t")
  with waiting_thread [of enq il t] show ?thesis
    by (simp add: wait_for_def Let_def)
qed

lemma currently_ready_effect:
  "currently_ready t =
     (Some (driver_state (state (wrapped t)) = ready),
      t\<lparr>wrapped := emit [Lock state_mutex, Unlock state_mutex] (wrapped t)\<rparr>)"
  by (simp add: currently_ready_def getState_eq isReady_def)


lemma funpow_few:
  "(f ^^ 2) x = f (f x)"
  "(f ^^ 3) x = f (f (f x))"
  "(f ^^ 5) x = f (f (f (f (f x))))"
  by (simp_all add: eval_nat_numeral)

lemma run_step_simps:
  "run_step enq (\<lparr>pc = AtEntry, pending = hs\<rparr>, d) =
     (\<lparr>pc = AtCheck, pending = hs\<rparr>, setDriverState (socket_status d) d)"
  "run_step enq (\<lparr>pc = AtCheck, pending = hs\<rparr>, d) =
     (\<lparr>pc = (if driver_state (state d) = opened then AtReset else AtFinalDispatch), pending = hs\<rparr>,
      emit [Lock state_mutex, Unlock state_mutex] d)"
  "run_step enq (\<lparr>pc = AtReset, pending = hs\<rparr>, d) = (\<lparr>pc = AtWork, pending = hs\<rparr>, io_reset d)"
  "run_step enq (\<lparr>pc = AtWork, pending = hs\<rparr>, d) = (\<lparr>pc = AtReady, pending = hs\<rparr>, emit [IoWork] d)"
  "run_step enq (\<lparr>pc = AtReady, pending = hs\<rparr>, d) =
     (\<lparr>pc = AtPostThread, pending = hs\<rparr>, setDriverState ready d)"
  "run_step enq (\<lparr>pc = AtPostThread, pending = hs\<rparr>, d) =
     (\<lparr>pc = AtTrigger, pending = hs\<rparr>, emit [IoThread] d)"
  "run_step enq (\<lparr>pc = AtTrigger, pending = hs\<rparr>, d) =
     (\<lparr>pc = InLoop, pending = hs\<rparr>, triggerReadSome d)"
  by (simp_all add: run_step_def getState_eq)

text \<open>
  C7. With the thread scheduled so that the driver becomes ready after the waiter has read
  its state and before the listener is registered, \<^verbatim>\<open>init\<close> returns false after its
  second, although the link status became ready before the wait began and is ready when
  \<^verbatim>\<open>init\<close> returns:
\<close>
theorem init_misses_ready_counterexample:
  "fst (init winit_opens enq_accepts []
          \<lparr>before_snapshot = 2, before_listener = 3, before_wait = 0, wakeups = [(2, 1000000)]\<rparr>
          0 ''can0'' False \<lparr>wrapped = AsioDriver_new 0, thread = None\<rparr>) = Some False \<and>
   driver_state (state (wrapped (snd (init winit_opens enq_accepts []
          \<lparr>before_snapshot = 2, before_listener = 3, before_wait = 0, wakeups = [(2, 1000000)]\<rparr>
          0 ''can0'' False \<lparr>wrapped = AsioDriver_new 0, thread = None\<rparr>)))) = ready \<and>
   dispatched (trace (wrapped (snd (init winit_opens enq_accepts []
          \<lparr>before_snapshot = 2, before_listener = 3, before_wait = 0, wakeups = [(2, 1000000)]\<rparr>
          0 ''can0'' False \<lparr>wrapped = AsioDriver_new 0, thread = None\<rparr>)))) =
     [state_in opened, state_in ready]"
  by (simp add: init_def wait_for_def waiting_def StateWaiter_new_def start_thread_def
      run_thread_new_def advance_def run_step_simps funpow_few winit_opens_def
      AsioDriver_new_def State_init_def state_in_def socket_status_def getState_eq
      setDriverState_effect io_reset_def triggerReadSome_def emit_def listen_def heard_def
      wait_def timed_wait_def deliver_def updateState_def seconds_def Let_def)

text \<open>
  C7, as the code has it. With no thread tracked and a successful \<^verbatim>\<open>init\<close> of the
  wrapped driver, \<^verbatim>\<open>init\<close> tracks a new thread that runs \<^verbatim>\<open>run\<close> and returns what its
  waiter finds within one second: true exactly when, after wake-ups that all came before
  the deadline, the state the waiter holds is ready, which is the last state dispatched
  since its listener was registered, or the state it read from the running driver when
  none was dispatched since; it does return once the deadline has passed. With a thread
  tracked, the driver is only asked for its state, nothing is started, and the result is
  whether the driver is ready at that moment. When the wrapped \<^verbatim>\<open>init\<close> fails, nothing
  is started either and the result is whether the driver is ready, hence false for a
  driver that stayed closed.
\<close>
theorem init_spawns_once_and_waits:
  "(thread t = None \<and> fst (winit device loopback (wrapped t)) \<longrightarrow>
      thread (snd (init winit enq sched il now device loopback t)) \<noteq> None \<and>
      (\<forall>b. fst (init winit enq sched il now device loopback t) = Some b \<longrightarrow>
         b = (\<exists>k\<le>length (wakeups il).
                (\<forall>x\<in>set (take k (wakeups il)). snd x < now + 1000000) \<and>
                driver_state (last
                  (state (wrapped (advance enq (before_snapshot il)
                     (start_thread sched (t\<lparr>wrapped := snd (winit device loopback (wrapped t))\<rparr>)))) #
                   heard (trace (wrapped (advance enq (sum_list (map fst (take k (wakeups il))))
                     (snd (waiting enq il
                        (start_thread sched
                           (t\<lparr>wrapped := snd (winit device loopback (wrapped t))\<rparr>))))))))) =
                  ready)) \<and>
      ((\<exists>x\<in>set (wakeups il). now + 1000000 \<le> snd x) \<longrightarrow>
         fst (init winit enq sched il now device loopback t) \<noteq> None)) \<and>
   (thread t \<noteq> None \<longrightarrow>
      snd (init winit enq sched il now device loopback t) =
        (advance enq (before_snapshot il) t)\<lparr>wrapped :=
           emit [Lock state_mutex, Unlock state_mutex]
             (wrapped (advance enq (before_snapshot il) t))\<rparr> \<and>
      fst (init winit enq sched il now device loopback t) =
        Some (driver_state (state (wrapped (advance enq (before_snapshot il) t))) = ready)) \<and>
   (thread t = None \<and> \<not> fst (winit device loopback (wrapped t)) \<longrightarrow>
      thread (snd (init winit enq sched il now device loopback t)) = None \<and>
      fst (init winit enq sched il now device loopback t) =
        Some (driver_state (state (snd (winit device loopback (wrapped t)))) = ready)) \<and>
   (thread t = None \<and> \<not> fst (winit device loopback (wrapped t)) \<and>
      driver_state (state (snd (winit device loopback (wrapped t)))) = closed \<longrightarrow>
      fst (init winit enq sched il now device loopback t) = Some False)"
proof -
  obtain ok d where w: "winit device loopback (wrapped t) = (ok, d)"
    by (cases "winit device loopback (wrapped t)")
  show ?thesis
  proof (cases "thread t")
    case (Some running)
    then have "thread (advance enq (before_snapshot il) t) \<noteq> None" by simp
    with Some show ?thesis by (simp add: init_def currently_ready_effect)
  next
    case None
    show ?thesis
    proof (cases ok)
      case False
      with None w show ?thesis by (simp add: init_def currently_ready_effect)
    next
      case True
      let ?t1 = "start_thread sched (t\<lparr>wrapped := d\<rparr>)"
      from None w True
      have i: "init winit enq sched il now device loopback t =
          wait_for enq ready ?t1 (seconds 1) il now"
        by (simp add: init_def)
      have "thread ?t1 \<noteq> None" by (simp add: start_thread_def)
      then have 1: "thread (snd (wait_for enq ready ?t1 (seconds 1) il now)) \<noteq> None"
        by simp
      have 2: "b = (\<exists>k\<le>length (wakeups il).
                (\<forall>x\<in>set (take k (wakeups il)). snd x < now + 1000000) \<and>
                driver_state (last
                  (state (wrapped (advance enq (before_snapshot il) ?t1)) #
                   heard (trace (wrapped (advance enq (sum_list (map fst (take k (wakeups il))))
                     (snd (waiting enq il ?t1))))))) = ready)"
        if "fst (wait_for enq ready ?t1 (seconds 1) il now) = Some b" for b
        using wait_for_heard [OF that] by (simp add: seconds_def)
      have 3: "fst (wait_for enq ready ?t1 (seconds 1) il now) \<noteq> None"
        if "\<exists>x\<in>set (wakeups il). now + 1000000 \<le> snd x"
        using that wait_for_returns [of il now "seconds 1" enq ready ?t1]
        by (simp add: seconds_def)
      from None w True 1 2 3 show ?thesis
        unfolding i by simp
    qed
  qed
qed

theorem init_spawns_once_and_waits_witness:
  "(thread fresh_interface = None \<and> fst (winit_opens ''can0'' False (wrapped fresh_interface))) \<and>
   fst (init winit_opens enq_accepts [] ready_at_snapshot 0 ''can0'' False fresh_interface) =
     Some True \<and>
   fst (init winit_opens enq_accepts [] hears_ready 0 ''can0'' False fresh_interface) =
     Some True \<and>
   (\<exists>k\<le>length (wakeups hears_ready).
      (\<forall>x\<in>set (take k (wakeups hears_ready)). snd x < 0 + 1000000) \<and>
      driver_state (last
        (state (wrapped (advance enq_accepts (before_snapshot hears_ready)
           (start_thread []
              (fresh_interface\<lparr>wrapped :=
                 snd (winit_opens ''can0'' False (wrapped fresh_interface))\<rparr>)))) #
         heard (trace (wrapped (advance enq_accepts
           (sum_list (map fst (take k (wakeups hears_ready))))
           (snd (waiting enq_accepts hears_ready
              (start_thread []
                 (fresh_interface\<lparr>wrapped :=
                    snd (winit_opens ''can0'' False (wrapped fresh_interface))\<rparr>))))))))) =
        ready) \<and>
   thread (snd (init winit_opens enq_accepts [] ready_at_snapshot 0 ''can0'' False
     fresh_interface)) \<noteq> None \<and>
   (\<exists>x\<in>set (wakeups ready_at_snapshot). 0 + 1000000 \<le> snd x) \<and>
   thread running_interface \<noteq> None \<and>
   fst (init winit_opens enq_accepts [] ready_at_snapshot 0 ''can0'' False running_interface) =
     Some True \<and>
   (thread fresh_interface = None \<and> \<not> fst (winit_fails ''can0'' False (wrapped fresh_interface)) \<and>
    driver_state (state (snd (winit_fails ''can0'' False (wrapped fresh_interface)))) = closed) \<and>
   fst (init winit_fails enq_accepts [] ready_at_snapshot 0 ''can0'' False fresh_interface) =
     Some False"
proof -
  note spawn = init_spawns_once_and_waits [of fresh_interface winit_opens "''can0''" False
      enq_accepts "[]" ready_at_snapshot 0]
  note hears = init_spawns_once_and_waits [of fresh_interface winit_opens "''can0''" False
      enq_accepts "[]" hears_ready 0]
  note tracked = init_spawns_once_and_waits [of running_interface winit_opens "''can0''" False
      enq_accepts "[]" ready_at_snapshot 0]
  note failing = init_spawns_once_and_waits [of fresh_interface winit_fails "''can0''" False
      enq_accepts "[]" ready_at_snapshot 0]
  have h1: "thread fresh_interface = None \<and>
      fst (winit_opens ''can0'' False (wrapped fresh_interface))"
    by (simp add: fresh_interface_def winit_opens_def)
  have h2: "\<exists>x\<in>set (wakeups ready_at_snapshot). 0 + 1000000 \<le> snd x"
    by (simp add: ready_at_snapshot_def)
  have h3: "thread running_interface \<noteq> None"
    by (simp add: running_interface_def)
  have h4: "thread fresh_interface = None \<and>
      \<not> fst (winit_fails ''can0'' False (wrapped fresh_interface)) \<and>
      driver_state (state (snd (winit_fails ''can0'' False (wrapped fresh_interface)))) = closed"
    by (simp add: fresh_interface_def winit_fails_def AsioDriver_new_def State_init_def)
  have r1: "fst (init winit_opens enq_accepts [] ready_at_snapshot 0 ''can0'' False
      fresh_interface) = Some True"
    by (simp add: init_def wait_for_def waiting_def StateWaiter_new_def start_thread_def
        run_thread_new_def advance_def run_step_simps funpow_few winit_opens_def
        fresh_interface_def ready_at_snapshot_def
        AsioDriver_new_def State_init_def state_in_def socket_status_def getState_eq
        setDriverState_effect io_reset_def triggerReadSome_def emit_def listen_def heard_def
        wait_def timed_wait_def deliver_def updateState_def seconds_def Let_def)
  have r2: "driver_state (state (wrapped (advance enq_accepts
      (before_snapshot ready_at_snapshot) running_interface))) = ready"
    by (simp add: advance_def run_thread_new_def run_step_simps funpow_few
        running_interface_def ready_at_snapshot_def open_driver_def
        AsioDriver_new_def State_init_def socket_status_def
        setDriverState_effect io_reset_def emit_def)
  have r3: "fst (init winit_opens enq_accepts [] hears_ready 0 ''can0'' False
      fresh_interface) = Some True"
    by (simp add: init_def wait_for_def waiting_def StateWaiter_new_def start_thread_def
        run_thread_new_def advance_def run_step_simps funpow_few winit_opens_def
        fresh_interface_def hears_ready_def
        AsioDriver_new_def State_init_def state_in_def socket_status_def getState_eq
        setDriverState_effect io_reset_def triggerReadSome_def emit_def listen_def heard_def
        wait_def timed_wait_def deliver_def updateState_def seconds_def Let_def)
  from spawn h1 have "thread (snd (init winit_opens enq_accepts [] ready_at_snapshot 0 ''can0''
      False fresh_interface)) \<noteq> None"
    by blast
  moreover from hears h1 r3 have "\<exists>k\<le>length (wakeups hears_ready).
      (\<forall>x\<in>set (take k (wakeups hears_ready)). snd x < 0 + 1000000) \<and>
      driver_state (last
        (state (wrapped (advance enq_accepts (before_snapshot hears_ready)
           (start_thread []
              (fresh_interface\<lparr>wrapped :=
                 snd (winit_opens ''can0'' False (wrapped fresh_interface))\<rparr>)))) #
         heard (trace (wrapped (advance enq_accepts
           (sum_list (map fst (take k (wakeups hears_ready))))
           (snd (waiting enq_accepts hears_ready
              (start_thread []
                 (fresh_interface\<lparr>wrapped :=
                    snd (winit_opens ''can0'' False (wrapped fresh_interface))\<rparr>))))))))) =
        ready"
    by blast
  moreover from tracked h3 r2 have "fst (init winit_opens enq_accepts [] ready_at_snapshot 0
      ''can0'' False running_interface) = Some True"
    by simp
  moreover from failing h4 have "fst (init winit_fails enq_accepts [] ready_at_snapshot 0
      ''can0'' False fresh_interface) = Some False"
    by blast
  ultimately show ?thesis using h1 h2 h3 h4 r1 r3 by blast
qed

subsection \<open>The two mutexes\<close>

lemma held_along_no_socket:
  "Lock socket_mutex \<notin> set es \<Longrightarrow> socket_mutex \<notin> set hs \<Longrightarrow>
   \<forall>h\<in>set (held_along hs es). socket_mutex \<notin> set h"
proof (induction es arbitrary: hs)
  case Nil
  then show ?case by simp
next
  case (Cons e es)
  from Cons.prems have "socket_mutex \<notin> set (held_after hs e)"
    by (cases e) (auto dest: notin_set_remove1)
  with Cons show ?case by simp
qed

lemma not_nested: "Lock socket_mutex \<notin> set es \<Longrightarrow> \<not> nested es"
  using held_along_no_socket [of es "[]"] by (auto simp: nested_def list_ex_iff)

lemma sparesI:
  "trace d' = trace d @ evs \<Longrightarrow> Lock socket_mutex \<notin> set evs \<Longrightarrow> spares_socket_mutex d d'"
  by (simp add: spares_socket_mutex_def emitted_def)

lemma sparesE:
  assumes "spares_socket_mutex d d'"
  obtains evs where "trace d' = trace d @ evs" "Lock socket_mutex \<notin> set evs"
proof -
  from assms have "trace d' = trace d @ emitted d d'"
    unfolding spares_socket_mutex_def emitted_def by (metis append_take_drop_id)
  with assms that show thesis unfolding spares_socket_mutex_def by blast
qed

lemma spares_refl: "spares_socket_mutex d d"
  by (rule sparesI [where evs = "[]"]) simp_all

lemma spares_trans [trans]:
  assumes "spares_socket_mutex a b" "spares_socket_mutex b c"
  shows "spares_socket_mutex a c"
proof -
  from assms(1) obtain e1 where 1: "trace b = trace a @ e1" "Lock socket_mutex \<notin> set e1"
    by (rule sparesE)
  from assms(2) obtain e2 where 2: "trace c = trace b @ e2" "Lock socket_mutex \<notin> set e2"
    by (rule sparesE)
  from 1 2 show ?thesis by (intro sparesI [where evs = "e1 @ e2"]) simp_all
qed

lemma spares_emit: "Lock socket_mutex \<notin> set evs \<Longrightarrow> spares_socket_mutex d (emit evs d)"
  by (rule sparesI [where evs = evs]) (simp_all add: emit_def)

lemma spares_setErrorCode: "spares_socket_mutex d (setErrorCode e d)"
  by (simp add: setErrorCode_effect spares_socket_mutex_def emitted_def emit_def)

lemma spares_setInternalError: "spares_socket_mutex d (setInternalError n d)"
  by (simp add: setInternalError_effect spares_socket_mutex_def emitted_def emit_def)

lemma spares_setDriverState: "spares_socket_mutex d (setDriverState st d)"
  by (simp add: setDriverState_effect spares_socket_mutex_def emitted_def emit_def)

lemma spares_shutdown: "spares_socket_mutex d (shutdown d)"
  by (simp add: shutdown_effect spares_socket_mutex_def emitted_def emit_def)

lemma spares_send: "spares_socket_mutex d (snd (send enq msg d))"
  by (simp add: send_effect spares_socket_mutex_def emitted_def emit_def)

lemma spares_frameReceived: "spares_socket_mutex d (frameReceived e d)"
  by (simp add: frameReceived_effect setErrorCode_effect spares_socket_mutex_def emitted_def emit_def)

lemma spares_happen: "spares_socket_mutex d (happen enq h d)"
proof (cases h)
  case (ReadCompleted f e)
  have "spares_socket_mutex (d\<lparr>input := f\<rparr>) (frameReceived e (d\<lparr>input := f\<rparr>))"
    by (rule spares_frameReceived)
  then show ?thesis using ReadCompleted by (simp add: spares_socket_mutex_def emitted_def)
qed (simp_all add: spares_shutdown spares_send spares_setErrorCode spares_setInternalError
       spares_setDriverState spares_refl)

lemma spares_io_run: "io_run enq hs d = Some (ec, d') \<Longrightarrow> spares_socket_mutex d d'"
proof (induction hs arbitrary: d)
  case Nil
  then show ?case by (auto simp: spares_refl split: if_splits)
next
  case (Cons h hs)
  show ?case
  proof (cases "io_stopped d \<or> (\<exists>e. h = ReactorFailed e)")
    case True
    with Cons.prems show ?thesis by (auto simp: spares_refl split: if_splits)
  next
    case False
    with Cons.prems have "io_run enq hs (happen enq h d) = Some (ec, d')"
      by (cases h) simp_all
    then have "spares_socket_mutex (happen enq h d) d'" by (rule Cons.IH)
    with spares_happen show ?thesis by (rule spares_trans)
  qed
qed

lemma spares_run:
  assumes "run enq sched d = Some d'"
  shows "spares_socket_mutex d d'"
proof (cases "socket_is_open d")
  case False
  let ?d1 = "setDriverState closed d"
  from False assms
  have d': "d' = emit [Lock state_mutex, Unlock state_mutex, StateDispatch (state ?d1)] ?d1"
    by (auto simp: run_def socket_status_def getState_eq Let_def emit_def)
  have "spares_socket_mutex d ?d1" by (rule spares_setDriverState)
  also have "spares_socket_mutex ?d1 d'" unfolding d' by (rule spares_emit) simp
  finally show ?thesis .
next
  case True
  define d2 where "d2 = emit [Lock state_mutex, Unlock state_mutex] (setDriverState opened d)"
  define d5 where "d5 = setDriverState ready (emit [IoWork] (io_reset d2))"
  define d7 where "d7 = triggerReadSome (emit [IoThread] d5)"
  from True assms obtain ec d8 where io: "io_run enq sched d7 = Some (ec, d8)"
    and d': "d' = (let d9 = setErrorCode ec d8; d10 = setDriverState (socket_status d9) d9
                   in emit [StateDispatch (state d10)] d10)"
    by (auto simp: run_def socket_status_def getState_eq d2_def d5_def d7_def Let_def
        split: option.splits)
  define d9 where "d9 = setErrorCode ec d8"
  define d10 where "d10 = setDriverState (socket_status d9) d9"
  have "spares_socket_mutex d (setDriverState opened d)" by (rule spares_setDriverState)
  also have "spares_socket_mutex (setDriverState opened d) d2"
    unfolding d2_def by (rule spares_emit) simp
  also have "spares_socket_mutex d2 (emit [IoWork] (io_reset d2))"
    by (simp add: spares_socket_mutex_def emitted_def emit_def io_reset_def)
  also have "spares_socket_mutex (emit [IoWork] (io_reset d2)) d5"
    unfolding d5_def by (rule spares_setDriverState)
  also have "spares_socket_mutex d5 d7"
    by (simp add: d7_def triggerReadSome_def spares_socket_mutex_def emitted_def emit_def)
  also from io have "spares_socket_mutex d7 d8" by (rule spares_io_run)
  also have "spares_socket_mutex d8 d9" unfolding d9_def by (rule spares_setErrorCode)
  also have "spares_socket_mutex d9 d10" unfolding d10_def by (rule spares_setDriverState)
  also have "spares_socket_mutex d10 d'"
    using d' by (simp add: d10_def d9_def Let_def spares_emit)
  finally show ?thesis .
qed

text \<open>
  C9. The socket mutex is declared beside the state mutex, and no operation of the
  driver takes it. \<^verbatim>\<open>shutdown\<close> on an open socket cancels and closes it without
  holding the socket mutex:
\<close>
theorem shutdown_unserialized_counterexample:
  "\<not> serialized (emitted ((AsioDriver_new (0::nat))\<lparr>socket_is_open := True\<rparr>)
        (shutdown ((AsioDriver_new (0::nat))\<lparr>socket_is_open := True\<rparr>)))"
  by (simp add: serialized_def shutdown_effect emitted_def emit_def AsioDriver_new_def)

text \<open>
  C9, as the driver has it. The two mutexes are distinct. \<^verbatim>\<open>shutdown\<close> cancels and
  closes the socket, and \<^verbatim>\<open>send\<close> calls the transport's enqueue, with no mutex of the
  driver held: \<^verbatim>\<open>getState\<close> has released the state mutex before enqueue is called.
  Neither they nor \<^verbatim>\<open>run\<close>, with whatever happens during the reactor loop, take the
  socket mutex, so the two mutexes are never held together.
\<close>
theorem socket_mutex_never_taken:
  "state_mutex \<noteq> socket_mutex \<and>
   held_at_socket [] (emitted d (shutdown d)) = (if socket_is_open d then [[], []] else []) \<and>
   held_at_socket [] (emitted d (snd (send enq msg d))) =
     (if driver_state (state d) = ready then [[]] else []) \<and>
   \<not> nested (emitted d (shutdown d)) \<and>
   \<not> nested (emitted d (snd (send enq msg d))) \<and>
   (run enq sched d = Some d' \<longrightarrow>
      Lock socket_mutex \<notin> set (emitted d d') \<and> \<not> nested (emitted d d'))"
proof -
  have "Lock socket_mutex \<notin> set (emitted d (shutdown d))"
    using spares_shutdown [of d] by (simp add: spares_socket_mutex_def)
  then have 1: "\<not> nested (emitted d (shutdown d))" by (rule not_nested)
  have "Lock socket_mutex \<notin> set (emitted d (snd (send enq msg d)))"
    using spares_send [of d enq msg] by (simp add: spares_socket_mutex_def)
  then have 2: "\<not> nested (emitted d (snd (send enq msg d)))" by (rule not_nested)
  have 3: "Lock socket_mutex \<notin> set (emitted d d') \<and> \<not> nested (emitted d d')"
    if "run enq sched d = Some d'"
    using spares_run [OF that] not_nested [of "emitted d d'"] by (simp add: spares_socket_mutex_def)
  have 4: "held_at_socket [] (emitted d (shutdown d)) = (if socket_is_open d then [[], []] else [])"
    by (simp add: shutdown_effect emitted_def emit_def)
  have 5: "held_at_socket [] (emitted d (snd (send enq msg d))) =
     (if driver_state (state d) = ready then [[]] else [])"
    by (simp add: send_effect emitted_emit)
  from 1 2 3 4 5 show ?thesis by simp
qed

theorem socket_mutex_never_taken_witness:
  "\<exists>d'. run (\<lambda>m. True) [SendCalled 1, ShutdownCalled] open_driver = Some d' \<and>
     enqueued (emitted open_driver d') = [1] \<and>
     Lock socket_mutex \<notin> set (emitted open_driver d') \<and>
     \<not> nested (emitted open_driver d')"
proof -
  have "\<exists>d'. run (\<lambda>m. True) [SendCalled 1, ShutdownCalled] open_driver = Some d' \<and>
     enqueued (emitted open_driver d') = [1]"
    by (simp add: run_def getState_eq setDriverState_effect setErrorCode_effect io_reset_def
        triggerReadSome_def shutdown_effect send_effect emit_def emitted_def open_driver_def
        AsioDriver_new_def State_init_def state_in_def socket_status_def success_def Let_def)
  then obtain d' where r: "run (\<lambda>m. True) [SendCalled 1, ShutdownCalled] open_driver = Some d'"
    and q: "enqueued (emitted open_driver d') = [1]"
    by blast
  from r q socket_mutex_never_taken
    [of open_driver "\<lambda>m. True" 1 "[SendCalled 1, ShutdownCalled]" d']
  show ?thesis by blast
qed

end
